theory Spec2Isabelle
  imports Main
begin

section \<open>Strings\<close>

text \<open>
  Python strings are modelled as HOL strings (lists of 8-bit characters). The string
  methods the formatter and the line classifier call are written out below; character
  classes are the ASCII ones (a character above 127 is in no class and has no other
  case). The four pictographs of the output literals are written as their UTF-8 bytes.
\<close>

definition is_space :: "char \<Rightarrow> bool" where
  \<comment> \<open>\<open>str.isspace\<close> on one ASCII character: tab, LF, VT, FF, CR, FS, GS, RS, US, space\<close>
  "is_space c = (let n = (of_char c :: nat) in (9 \<le> n \<and> n \<le> 13) \<or> (28 \<le> n \<and> n \<le> 32))"

definition lower_char :: "char \<Rightarrow> char" where
  "lower_char c = (let n = (of_char c :: nat) in if 65 \<le> n \<and> n \<le> 90 then char_of (n + 32) else c)"

definition lower :: "string \<Rightarrow> string" where
  \<comment> \<open>\<open>str.lower()\<close>\<close>
  "lower s = map lower_char s"

definition lstrip :: "string \<Rightarrow> string" where
  "lstrip s = dropWhile is_space s"

definition rstrip :: "string \<Rightarrow> string" where
  "rstrip s = rev (dropWhile is_space (rev s))"

definition strip :: "string \<Rightarrow> string" where
  \<comment> \<open>\<open>str.strip()\<close>\<close>
  "strip s = rstrip (lstrip s)"

fun startswith :: "string \<Rightarrow> string \<Rightarrow> bool" where
  \<comment> \<open>\<open>s.startswith(p)\<close>\<close>
  "startswith s [] = True"
| "startswith [] (p # ps) = False"
| "startswith (c # cs) (p # ps) = (c = p \<and> startswith cs ps)"


fun contains :: "string \<Rightarrow> string \<Rightarrow> bool" where
  \<comment> \<open>\<open>sub in s\<close>: \<open>contains s sub\<close>\<close>
  "contains [] sub = (sub = [])"
| "contains (c # cs) sub = (startswith (c # cs) sub \<or> contains cs sub)"

fun split_from :: "char \<Rightarrow> string \<Rightarrow> string \<Rightarrow> string list" where
  "split_from sep cur [] = [cur]"
| "split_from sep cur (c # cs) =
     (if c = sep then cur # split_from sep [] cs else split_from sep (cur @ [c]) cs)"

definition split :: "string \<Rightarrow> char \<Rightarrow> string list" where
  \<comment> \<open>\<open>s.split(sep)\<close> for a separator of one character: never the empty list\<close>
  "split s sep = split_from sep [] s"

fun split_ws_from :: "string \<Rightarrow> string \<Rightarrow> string list" where
  "split_ws_from cur [] = (if cur = [] then [] else [cur])"
| "split_ws_from cur (c # cs) =
     (if is_space c then (if cur = [] then split_ws_from [] cs else cur # split_ws_from [] cs)
      else split_ws_from (cur @ [c]) cs)"

definition split_ws :: "string \<Rightarrow> string list" where
  \<comment> \<open>\<open>s.split()\<close>: the maximal runs of characters that are not white space\<close>
  "split_ws s = split_ws_from [] s"

fun join :: "string \<Rightarrow> string list \<Rightarrow> string" where
  \<comment> \<open>\<open>sep.join(xs)\<close>\<close>
  "join sep [] = []"
| "join sep [x] = x"
| "join sep (x # y # ys) = x @ sep @ join sep (y # ys)"

definition count_nl :: "string \<Rightarrow> nat" where
  \<comment> \<open>\<open>s.count('\n')\<close>\<close>
  "count_nl s = length (filter (\<lambda>c. c = CHR 0x0A) s)"

definition has_nl :: "string \<Rightarrow> bool" where
  \<comment> \<open>\<open>'\n' in s\<close>\<close>
  "has_nl s = (CHR 0x0A \<in> set s)"

definition is_alpha_us :: "char \<Rightarrow> bool" where
  "is_alpha_us c = (let n = (of_char c :: nat) in (65 \<le> n \<and> n \<le> 90) \<or> (97 \<le> n \<and> n \<le> 122) \<or> n = 95)"

definition is_digit :: "char \<Rightarrow> bool" where
  "is_digit c = (let n = (of_char c :: nat) in 48 \<le> n \<and> n \<le> 57)"

definition is_word :: "char \<Rightarrow> bool" where
  \<comment> \<open>the class \<open>\w\<close> of the regular expressions, on ASCII\<close>
  "is_word c = (is_alpha_us c \<or> is_digit c)"

definition isidentifier :: "string \<Rightarrow> bool" where
  \<comment> \<open>\<open>str.isidentifier()\<close>, on ASCII\<close>
  "isidentifier s = (case s of [] \<Rightarrow> False | c # cs \<Rightarrow> is_alpha_us c \<and> list_all is_word cs)"

fun digits_of :: "nat \<Rightarrow> string" where
  "digits_of n = (if n < 10 then [char_of (48 + n)] else digits_of (n div 10) @ [char_of (48 + n mod 10)])"

definition str_of_int :: "int \<Rightarrow> string" where
  \<comment> \<open>\<open>str(n)\<close> of an integer\<close>
  "str_of_int n = (if n < 0 then CHR ''-'' # digits_of (nat (- n)) else digits_of (nat n))"

definition format_4d :: "int \<Rightarrow> string" where
  \<comment> \<open>the format \<open>{n:4d}\<close>: right-aligned in a field of four, padded with spaces\<close>
  "format_4d n = (let s = str_of_int n in replicate (4 - length s) CHR '' '' @ s)"

definition repeat :: "string \<Rightarrow> int \<Rightarrow> string" where
  \<comment> \<open>\<open>s * n\<close>: empty when \<open>n\<close> is not positive\<close>
  "repeat s n = concat (replicate (nat n) s)"

section \<open>Tokens\<close>

text \<open>
  Modelled from the spec: the token categories of \<open>pygments.token\<close>, which is not among
  the sources. A category is a tuple of names, the path from the root \<open>Token\<close>; two
  categories are equal when their paths are. \<open>Whitespace\<close> lies under \<open>Text\<close>, and
  \<open>String\<close> and \<open>Number\<close> under \<open>Literal\<close>.
\<close>

type_synonym ttype = "string list"

type_synonym token = "ttype \<times> string"

abbreviation Whitespace :: ttype where "Whitespace \<equiv> [''Text'', ''Whitespace'']"
abbreviation Keyword :: ttype where "Keyword \<equiv> [''Keyword'']"
abbreviation Keyword_Declaration :: ttype where "Keyword_Declaration \<equiv> [''Keyword'', ''Declaration'']"
abbreviation Keyword_Type :: ttype where "Keyword_Type \<equiv> [''Keyword'', ''Type'']"
abbreviation Name :: ttype where "Name \<equiv> [''Name'']"
abbreviation Name_Function :: ttype where "Name_Function \<equiv> [''Name'', ''Function'']"
abbreviation Name_Other :: ttype where "Name_Other \<equiv> [''Name'', ''Other'']"
abbreviation Name_Builtin_Type :: ttype where "Name_Builtin_Type \<equiv> [''Name'', ''Builtin'', ''Type'']"
abbreviation Punctuation :: ttype where "Punctuation \<equiv> [''Punctuation'']"

datatype py_error = IndexError

definition tok_at :: "token list \<Rightarrow> nat \<Rightarrow> py_error + token" where
  \<comment> \<open>\<open>tokens[i]\<close> for an index that is not negative\<close>
  "tok_at tokens i = (if i < length tokens then Inr (tokens ! i) else Inl IndexError)"

section \<open>The formatter and its options\<close>

record formatter =
  lang :: string
  linenos :: bool
  linenostart :: int
  hl_lines :: "int list"
  inline_styles :: bool
  fence_char :: string
  fence_count :: int
  highlight_functions :: bool
  function_style :: string
  full :: bool
  title :: "string option"

text \<open>
  The fields are those \<open>__init__\<close> sets, and \<open>full\<close> and \<open>title\<close>, which
  \<open>format_unencoded\<close> reads from the options. \<open>hl_lines\<close> lists the elements of the
  Python set. \<open>init\<close> is the normalisation of \<open>__init__\<close>, on options already
  converted to their types (\<open>get_bool_opt\<close>, \<open>get_int_opt\<close> and \<open>get_list_opt\<close>
  are not among the sources) and with no lexer attached.
\<close>

definition init :: "formatter \<Rightarrow> formatter" where
  "init opts = opts\<lparr>
     fence_char := (if fence_char opts \<noteq> ''`'' \<and> fence_char opts \<noteq> ''~'' then ''`'' else fence_char opts),
     fence_count := (if fence_count opts < 3 then 3 else fence_count opts),
     function_style := (if function_style opts \<noteq> ''callout'' \<and> function_style opts \<noteq> ''emphasis''
                           \<and> function_style opts \<noteq> ''heading'' then ''emphasis'' else function_style opts)\<rparr>"

definition default_options :: formatter where
  "default_options = \<lparr> lang = '''', linenos = False, linenostart = 1, hl_lines = [],
     inline_styles = False, fence_char = ''`'', fence_count = 3, highlight_functions = True,
     function_style = ''emphasis'', full = False, title = None \<rparr>"

section \<open>The signature scanner\<close>

text \<open>
  \<open>_is_function_definition\<close>, loop by loop. Every read \<open>tokens[i]\<close> goes through
  \<open>tok_at\<close>, so that a read out of range is the value \<open>Inl IndexError\<close>. The scanner
  returns the tuple \<open>(is_function, function_name, parameters, end_idx)\<close>, with \<open>None\<close>
  for the name and the parameters where Python returns \<open>None\<close>. An index is a natural
  number: the pre-pass calls the scanner with the indices from 0 on.
\<close>

type_synonym scan_result = "bool \<times> string option \<times> string option \<times> nat"

function skip_whitespace :: "token list \<Rightarrow> nat \<Rightarrow> py_error + nat" where
  "skip_whitespace tokens i =
     (if i < length tokens then
        (case tok_at tokens i of
           Inl e \<Rightarrow> Inl e
         | Inr tk \<Rightarrow> if fst tk = Whitespace then skip_whitespace tokens (i + 1) else Inr i)
      else Inr i)"
  by pat_completeness auto
termination
  by (relation "measure (\<lambda>(tokens, i). length tokens - i)") auto

declare skip_whitespace.simps [simp del]

function look_back :: "token list \<Rightarrow> nat \<Rightarrow> nat \<Rightarrow> token list \<Rightarrow> py_error + token list" where
  "look_back tokens i j prev_tokens =
     (if j < i then
        (case tok_at tokens j of
           Inl e \<Rightarrow> Inl e
         | Inr tk \<Rightarrow>
             look_back tokens i (j + 1) (if fst tk \<noteq> Whitespace then prev_tokens @ [tk] else prev_tokens))
      else Inr prev_tokens)"
  by pat_completeness auto
termination
  by (relation "measure (\<lambda>(tokens, i, j, prev_tokens). i - j)") auto

declare look_back.simps [simp del]

definition def_keywords :: "string list" where
  "def_keywords = [''def'', ''function'', ''fn'', ''func'', ''method'', ''proc'', ''procedure'',
     ''sub'', ''subroutine'']"

definition modifier_words :: "string list" where
  "modifier_words = [''public'', ''private'', ''protected'', ''static'', ''void'', ''int'',
     ''string'', ''bool'', ''float'', ''double'']"

definition detect_head :: "token list \<Rightarrow> nat \<Rightarrow> ttype \<Rightarrow> string \<Rightarrow> py_error + (bool \<times> nat)" where
  \<comment> \<open>the head keyword, or a name after a type or a modifier: \<open>(found_def, i)\<close>\<close>
  "detect_head tokens i ttype val =
     (if (ttype = Keyword \<or> ttype = Keyword_Declaration) \<and> lower val \<in> set def_keywords
      then Inr (True, i + 1)
      else if ttype = Name \<and> i > 0 then
        (case look_back tokens i (nat (max 0 (int i - 5))) [] of
           Inl e \<Rightarrow> Inl e
         | Inr prev_tokens \<Rightarrow>
             if length prev_tokens \<ge> 1 then
               (let last_token = last prev_tokens in
                if (fst last_token = Keyword_Type \<or> fst last_token = Name_Builtin_Type
                      \<or> fst last_token = Keyword)
                   \<or> snd last_token \<in> set modifier_words
                then Inr (True, i) else Inr (False, i))
             else Inr (False, i))
      else Inr (False, i))"

function seek_paren :: "token list \<Rightarrow> nat \<Rightarrow> py_error + nat option" where
  "seek_paren tokens i =
     (if i < length tokens then
        (case tok_at tokens i of
           Inl e \<Rightarrow> Inl e
         | Inr tk \<Rightarrow>
             if fst tk = Punctuation \<and> snd tk = ''('' then Inr (Some i)
             else if fst tk \<noteq> Whitespace then Inr None
             else seek_paren tokens (i + 1))
      else Inr None)"
  by pat_completeness auto
termination
  by (relation "measure (\<lambda>(tokens, i). length tokens - i)") auto

declare seek_paren.simps [simp del]

text \<open>
  \<open>seek_paren\<close> is the outer loop after the name: it returns the index of the opening
  parenthesis, or \<open>None\<close> when the loop breaks or runs out of tokens.
\<close>

function scan_params :: "token list \<Rightarrow> nat \<Rightarrow> int \<Rightarrow> token list \<Rightarrow> py_error + (nat \<times> token list)" where
  "scan_params tokens i paren_count param_tokens =
     (if i < length tokens \<and> paren_count > 0 then
        (case tok_at tokens i of
           Inl e \<Rightarrow> Inl e
         | Inr tk \<Rightarrow>
             (let paren_count =
                    (if fst tk = Punctuation then
                       (if snd tk = ''('' then paren_count + 1
                        else if snd tk = '')'' then paren_count - 1 else paren_count)
                     else paren_count);
                  param_tokens = (if paren_count > 0 then param_tokens @ [tk] else param_tokens)
              in scan_params tokens (i + 1) paren_count param_tokens))
      else Inr (i, param_tokens))"
  by pat_completeness auto
termination
  by (relation "measure (\<lambda>(tokens, i, paren_count, param_tokens). length tokens - i)") auto

declare scan_params.simps [simp del]

definition is_terminator :: "string \<Rightarrow> bool" where
  \<comment> \<open>\<open>value in (':', '{', ';') or value == '\n'\<close>\<close>
  "is_terminator val = (val \<in> set ['':'', ''{'', '';''] \<or> val = [CHR 0x0A])"

function scan_terminator :: "token list \<Rightarrow> nat \<Rightarrow> py_error + nat" where
  "scan_terminator tokens i =
     (if i < length tokens then
        (case tok_at tokens i of
           Inl e \<Rightarrow> Inl e
         | Inr tk \<Rightarrow> if is_terminator (snd tk) then Inr i else scan_terminator tokens (i + 1))
      else Inr i)"
  by pat_completeness auto
termination
  by (relation "measure (\<lambda>(tokens, i). length tokens - i)") auto

declare scan_terminator.simps [simp del]

definition normalize_parameters :: "token list \<Rightarrow> string" where
  \<comment> \<open>the joined parameter text, stripped, with runs of white space collapsed\<close>
  "normalize_parameters param_tokens = join '' '' (split_ws (strip (concat (map snd param_tokens))))"

definition is_function_definition :: "formatter \<Rightarrow> token list \<Rightarrow> nat \<Rightarrow> py_error + scan_result" where
  "is_function_definition fmt tokens start_idx =
     (if \<not> highlight_functions fmt then Inr (False, None, None, start_idx)
      else
        case skip_whitespace tokens start_idx of Inl e \<Rightarrow> Inl e | Inr i \<Rightarrow>
        if i \<ge> length tokens then Inr (False, None, None, start_idx)
        else
          case tok_at tokens i of Inl e \<Rightarrow> Inl e | Inr tk \<Rightarrow>
          case detect_head tokens i (fst tk) (snd tk) of Inl e \<Rightarrow> Inl e | Inr (found_def, i) \<Rightarrow>
          if \<not> found_def then Inr (False, None, None, start_idx)
          else
            case skip_whitespace tokens i of Inl e \<Rightarrow> Inl e | Inr i \<Rightarrow>
            if i \<ge> length tokens then Inr (False, None, None, start_idx)
            else
              case tok_at tokens i of Inl e \<Rightarrow> Inl e | Inr tk \<Rightarrow>
              if \<not> (fst tk = Name \<or> fst tk = Name_Function \<or> fst tk = Name_Other)
              then Inr (False, None, None, start_idx)
              else
                (let function_name = snd tk in
                 case seek_paren tokens (i + 1) of Inl e \<Rightarrow> Inl e
                 | Inr None \<Rightarrow> Inr (False, None, None, start_idx)
                 | Inr (Some p) \<Rightarrow>
                     case scan_params tokens (p + 1) 1 [] of Inl e \<Rightarrow> Inl e | Inr (i, param_tokens) \<Rightarrow>
                     case scan_terminator tokens i of Inl e \<Rightarrow> Inl e | Inr end_idx \<Rightarrow>
                       Inr (True, Some function_name, Some (normalize_parameters param_tokens), end_idx)))"

section \<open>The discovery pre-pass\<close>

record func_sig =
  name :: "string option"
  parameters :: string
  start_idx :: nat
  end_idx :: nat
  line_num :: int
  signature :: string

definition line_of :: "token list \<Rightarrow> nat \<Rightarrow> int" where
  \<comment> \<open>the loop over \<open>range(i)\<close>: one more than the line breaks before token \<open>i\<close>\<close>
  "line_of tokens i = fold (\<lambda>tk line_num. line_num + int (count_nl (snd tk))) (take i tokens) 1"

definition slice_text :: "token list \<Rightarrow> nat \<Rightarrow> nat \<Rightarrow> string" where
  \<comment> \<open>\<open>''.join(token[1] for token in tokens[i:j])\<close>\<close>
  "slice_text tokens i j = concat (map snd (take (j - i) (drop i tokens)))"

definition make_sig :: "token list \<Rightarrow> nat \<Rightarrow> scan_result \<Rightarrow> func_sig" where
  "make_sig tokens i r =
     (case r of (is_func, func_name, params, e) \<Rightarrow>
        \<lparr> name = func_name,
          parameters = (case params of None \<Rightarrow> '''' | Some p \<Rightarrow> p),
          start_idx = i, end_idx = e, line_num = line_of tokens i,
          signature = slice_text tokens i e \<rparr>)"

text \<open>
  The loop of the pre-pass. Whether it ends depends on what the scanner returns, so it is
  a partial function: \<open>None\<close> is a loop that never ends. Beside the records it returns
  \<open>scans\<close>, the indices at which it called the scanner, in order; the Python code keeps
  no such list.
\<close>

partial_function (option) find_loop ::
  "formatter \<Rightarrow> token list \<Rightarrow> nat \<Rightarrow> func_sig list \<Rightarrow> nat list \<Rightarrow> (py_error + func_sig list \<times> nat list) option" where
  "find_loop fmt tokens i function_signatures scans =
     (if i < length tokens then
        (case is_function_definition fmt tokens i of
           Inl e \<Rightarrow> Some (Inl e)
         | Inr r \<Rightarrow>
             if fst r
             then find_loop fmt tokens (snd (snd (snd r))) (function_signatures @ [make_sig tokens i r]) (scans @ [i])
             else find_loop fmt tokens (i + 1) function_signatures (scans @ [i]))
      else Some (Inr (function_signatures, scans)))"

declare find_loop.simps [code]

definition find_function_signatures ::
  "formatter \<Rightarrow> token list \<Rightarrow> (py_error + func_sig list \<times> nat list) option" where
  "find_function_signatures fmt tokens =
     (if highlight_functions fmt then find_loop fmt tokens 0 [] [] else Some (Inr ([], [])))"

section \<open>The style mapper\<close>

definition style_map :: "(ttype \<times> string \<times> string) list" where
  "style_map = [
     ([''Comment''], (''*'', ''*'')),
     ([''Comment'', ''Single''], (''*'', ''*'')),
     ([''Comment'', ''Multiline''], (''*'', ''*'')),
     ([''Comment'', ''Preproc''], (''*'', ''*'')),
     ([''Comment'', ''PreprocFile''], (''*'', ''*'')),
     ([''Comment'', ''Special''], (''*'', ''*'')),
     ([''Keyword''], (''**'', ''**'')),
     ([''Keyword'', ''Constant''], (''**'', ''**'')),
     ([''Keyword'', ''Declaration''], (''**'', ''**'')),
     ([''Keyword'', ''Namespace''], (''**'', ''**'')),
     ([''Keyword'', ''Pseudo''], (''**'', ''**'')),
     ([''Keyword'', ''Reserved''], (''**'', ''**'')),
     ([''Keyword'', ''Type''], (''**'', ''**'')),
     ([''Literal'', ''String''], ('''', '''')),
     ([''Literal'', ''String'', ''Backtick''], ('''', '''')),
     ([''Literal'', ''String'', ''Char''], ('''', '''')),
     ([''Literal'', ''String'', ''Doc''], ('''', '''')),
     ([''Literal'', ''String'', ''Double''], ('''', '''')),
     ([''Literal'', ''String'', ''Escape''], ('''', '''')),
     ([''Literal'', ''String'', ''Heredoc''], ('''', '''')),
     ([''Literal'', ''String'', ''Interpol''], ('''', '''')),
     ([''Literal'', ''String'', ''Other''], ('''', '''')),
     ([''Literal'', ''String'', ''Regex''], ('''', '''')),
     ([''Literal'', ''String'', ''Single''], ('''', '''')),
     ([''Literal'', ''String'', ''Symbol''], ('''', '''')),
     ([''Name''], ('''', '''')),
     ([''Name'', ''Attribute''], ('''', '''')),
     ([''Name'', ''Builtin''], ('''', '''')),
     ([''Name'', ''Builtin'', ''Pseudo''], ('''', '''')),
     ([''Name'', ''Class''], ('''', '''')),
     ([''Name'', ''Constant''], ('''', '''')),
     ([''Name'', ''Decorator''], ('''', '''')),
     ([''Name'', ''Entity''], ('''', '''')),
     ([''Name'', ''Exception''], ('''', '''')),
     ([''Name'', ''Function''], ('''', '''')),
     ([''Name'', ''Function'', ''Magic''], ('''', '''')),
     ([''Name'', ''Label''], ('''', '''')),
     ([''Name'', ''Namespace''], ('''', '''')),
     ([''Name'', ''Other''], ('''', '''')),
     ([''Name'', ''Property''], ('''', '''')),
     ([''Name'', ''Tag''], ('''', '''')),
     ([''Name'', ''Variable''], ('''', '''')),
     ([''Name'', ''Variable'', ''Class''], ('''', '''')),
     ([''Name'', ''Variable'', ''Global''], ('''', '''')),
     ([''Name'', ''Variable'', ''Instance''], ('''', '''')),
     ([''Name'', ''Variable'', ''Magic''], ('''', '''')),
     ([''Literal'', ''Number''], ('''', '''')),
     ([''Literal'', ''Number'', ''Bin''], ('''', '''')),
     ([''Literal'', ''Number'', ''Float''], ('''', '''')),
     ([''Literal'', ''Number'', ''Hex''], ('''', '''')),
     ([''Literal'', ''Number'', ''Integer''], ('''', '''')),
     ([''Literal'', ''Number'', ''Integer'', ''Long''], ('''', '''')),
     ([''Literal'', ''Number'', ''Oct''], ('''', '''')),
     ([''Operator''], ('''', '''')),
     ([''Operator'', ''Word''], ('''', '''')),
     ([''Punctuation''], ('''', '''')),
     ([''Error''], (''~~'', ''~~'')),
     ([''Generic''], ('''', '''')),
     ([''Generic'', ''Deleted''], (''~~'', ''~~'')),
     ([''Generic'', ''Emph''], (''*'', ''*'')),
     ([''Generic'', ''Error''], (''~~'', ''~~'')),
     ([''Generic'', ''Heading''], (''**'', ''**'')),
     ([''Generic'', ''Inserted''], ('''', '''')),
     ([''Generic'', ''Output''], ('''', '''')),
     ([''Generic'', ''Prompt''], (''**'', ''**'')),
     ([''Generic'', ''Strong''], (''**'', ''**'')),
     ([''Generic'', ''Subheading''], (''**'', ''**'')),
     ([''Generic'', ''Traceback''], (''*'', ''*''))]"

definition get_markdown_style :: "formatter \<Rightarrow> ttype \<Rightarrow> string \<times> string" where
  "get_markdown_style fmt ttype =
     (if \<not> inline_styles fmt then ('''', '''')
      else case map_of style_map ttype of None \<Rightarrow> ('''', '''') | Some ps \<Rightarrow> ps)"

definition styled :: "formatter \<Rightarrow> ttype \<Rightarrow> string \<Rightarrow> string" where
  \<comment> \<open>what the renderer appends to the current line for one piece of token text\<close>
  "styled fmt ttype part =
     (if inline_styles fmt then
        (case get_markdown_style fmt ttype of (prefix, suffix) \<Rightarrow>
           if prefix \<noteq> [] \<or> suffix \<noteq> [] then prefix @ part @ suffix else part)
      else part)"

section \<open>The rendering engine\<close>

text \<open>
  The output file is the list of the strings written to it, in order. Each write carries
  the role the code gives it: the opening and the closing of a fence, the line-number
  prefix, a line of code with its number, its content and its annotation, and any other
  text. \<open>text_of\<close> is the string written; \<open>written\<close> is the content of the file.
\<close>

datatype chunk =
    Text string
  | FenceOpen string
  | FenceClose string
  | LinePrefix string
  | Line int string string

abbreviation NL :: char where "NL \<equiv> CHR 0x0A"

fun text_of :: "chunk \<Rightarrow> string" where
  "text_of (Text s) = s"
| "text_of (FenceOpen s) = s"
| "text_of (FenceClose s) = s"
| "text_of (LinePrefix s) = s"
| "text_of (Line n line_content annotation) = line_content @ annotation @ [NL]"

definition written :: "chunk list \<Rightarrow> string" where
  "written out = concat (map text_of out)"

definition wrench :: string where
  "wrench = [CHR 0xF0, CHR 0x9F, CHR 0x94, CHR 0xA7]"

definition clipboard :: string where
  "clipboard = [CHR 0xF0, CHR 0x9F, CHR 0x93, CHR 0x8B]"

definition books :: string where
  "books = [CHR 0xF0, CHR 0x9F, CHR 0x93, CHR 0x9A]"

definition function_marker :: "string \<Rightarrow> string" where
  "function_marker function_name = ''  # '' @ wrench @ '' FUNCTION: '' @ function_name"

definition highlight_marker :: string where
  "highlight_marker = ''  # <<< HIGHLIGHTED''"

definition line_keywords :: "string list" where
  "line_keywords = [''def '', ''function '', ''fn '', ''func '', ''method '', ''proc '',
     ''procedure '', ''sub '']"

function line_tokens_loop ::
  "token list \<Rightarrow> int \<Rightarrow> int \<Rightarrow> nat \<Rightarrow> int \<Rightarrow> token list \<Rightarrow> py_error + token list" where
  "line_tokens_loop tokens token_idx line_number i temp_line_num line_tokens =
     (if int i \<le> min (int (length tokens) - 1) (token_idx + 10) then
        (if i < length tokens then
           (case tok_at tokens i of
              Inl e \<Rightarrow> Inl e
            | Inr tk \<Rightarrow>
                if has_nl (snd tk) then
                  (case split (snd tk) NL of
                     [] \<Rightarrow> Inl IndexError
                   | first # rest \<Rightarrow>
                       (let line_tokens = (if temp_line_num = line_number
                                           then line_tokens @ [(fst tk, first)] else line_tokens);
                            temp_line_num = temp_line_num + int (count_nl (snd tk))
                        in if temp_line_num > line_number then Inr line_tokens
                           else line_tokens_loop tokens token_idx line_number (i + 1) temp_line_num line_tokens))
                else if temp_line_num = line_number
                then line_tokens_loop tokens token_idx line_number (i + 1) temp_line_num (line_tokens @ [tk])
                else line_tokens_loop tokens token_idx line_number (i + 1) temp_line_num line_tokens)
         else line_tokens_loop tokens token_idx line_number (i + 1) temp_line_num line_tokens)
      else Inr line_tokens)"
  by pat_completeness auto
termination
  by (relation "measure (\<lambda>(tokens, token_idx, line_number, i, temp_line_num, line_tokens).
        nat (min (int (length tokens) - 1) (token_idx + 10) + 1 - int i))") auto

declare line_tokens_loop.simps [simp del]

definition function_line ::
  "formatter \<Rightarrow> int \<Rightarrow> (token list \<times> int) option \<Rightarrow> py_error + (bool \<times> string)" where
  \<comment> \<open>the first half of \<open>_write_line\<close>: \<open>(is_function_line, function_name)\<close>\<close>
  "function_line fmt line_number ctx =
     (case ctx of
        None \<Rightarrow> Inr (False, '''')
      | Some (tokens, token_idx) \<Rightarrow>
          if highlight_functions fmt \<and> function_style fmt = ''emphasis'' \<and> tokens \<noteq> [] then
            (case line_tokens_loop tokens token_idx line_number (nat (max 0 (token_idx - 10))) line_number [] of
               Inl e \<Rightarrow> Inl e
             | Inr line_tokens \<Rightarrow>
                 (let line_text = strip (concat (map snd line_tokens)) in
                  if list_ex (\<lambda>keyword. contains line_text keyword) line_keywords then
                    Inr (True,
                         (case find (\<lambda>tk. (fst tk = Name_Function \<or> fst tk = Name) \<and> isidentifier (snd tk))
                                 line_tokens of
                            None \<Rightarrow> '''' | Some tk \<Rightarrow> snd tk))
                  else Inr (False, '''')))
          else Inr (False, ''''))"

definition write_line ::
  "formatter \<Rightarrow> string list \<Rightarrow> int \<Rightarrow> (token list \<times> int) option \<Rightarrow> py_error + chunk list" where
  "write_line fmt line_parts line_number ctx =
     (let line_content = concat line_parts in
      case function_line fmt line_number ctx of
        Inl e \<Rightarrow> Inl e
      | Inr (is_function_line, function_name) \<Rightarrow>
          Inr ((if linenos fmt then [LinePrefix (format_4d line_number @ '' | '')] else []) @
               [if is_function_line \<and> function_style fmt = ''emphasis''
                then Line line_number line_content (function_marker function_name)
                else if line_number \<in> set (hl_lines fmt)
                then Line line_number line_content highlight_marker
                else Line line_number line_content '''']))"

fun emit_middle ::
  "formatter \<Rightarrow> token list \<Rightarrow> nat \<Rightarrow> ttype \<Rightarrow> string list \<Rightarrow> int \<Rightarrow> chunk list
     \<Rightarrow> py_error + (int \<times> chunk list)" where
  "emit_middle fmt tokens token_idx ttype [] line_number out = Inr (line_number, out)"
| "emit_middle fmt tokens token_idx ttype (part # parts) line_number out =
     (case write_line fmt (if part \<noteq> [] then [styled fmt ttype part] else []) line_number
             (Some (tokens, int token_idx)) of
        Inl e \<Rightarrow> Inl e
      | Inr ws \<Rightarrow> emit_middle fmt tokens token_idx ttype parts (line_number + 1) (out @ ws))"

definition emit_token ::
  "formatter \<Rightarrow> token list \<Rightarrow> nat \<Rightarrow> token \<Rightarrow> string list \<Rightarrow> int
     \<Rightarrow> py_error + (string list \<times> int \<times> chunk list)" where
  \<comment> \<open>one token outside a skipped signature: \<open>(current_line, line_number, writes)\<close>\<close>
  "emit_token fmt tokens token_idx tk current_line line_number =
     (case tk of (ttype, val) \<Rightarrow>
        if has_nl val then
          (case split val NL of
             [] \<Rightarrow> Inl IndexError
           | first # rest \<Rightarrow>
               (let current_line = (if first \<noteq> [] then current_line @ [styled fmt ttype first]
                                    else current_line)
                in case write_line fmt current_line line_number (Some (tokens, int token_idx)) of
                     Inl e \<Rightarrow> Inl e
                   | Inr ws \<Rightarrow>
                       (case emit_middle fmt tokens token_idx ttype (butlast rest) (line_number + 1) ws of
                          Inl e \<Rightarrow> Inl e
                        | Inr (line_number, out) \<Rightarrow>
                            Inr ((if rest \<noteq> [] \<and> last rest \<noteq> [] then [styled fmt ttype (last rest)] else []),
                                 line_number, out))))
        else Inr ((if val \<noteq> [] then current_line @ [styled fmt ttype val] else current_line),
                  line_number, []))"

definition str_of_name :: "string option \<Rightarrow> string" where
  \<comment> \<open>a name inside a format string\<close>
  "str_of_name n = (case n of None \<Rightarrow> ''None'' | Some s \<Rightarrow> s)"

definition flush :: "formatter \<Rightarrow> string list \<Rightarrow> int \<Rightarrow> py_error + chunk list" where
  \<comment> \<open>\<open>if current_line: self._write_line(outfile, current_line, line_number)\<close>\<close>
  "flush fmt current_line line_number =
     (if current_line \<noteq> [] then write_line fmt current_line line_number None else Inr [])"

definition signature_block ::
  "formatter \<Rightarrow> string \<Rightarrow> func_sig \<Rightarrow> string list \<Rightarrow> int \<Rightarrow> py_error + (string list \<times> chunk list)" where
  \<comment> \<open>the start of a signature under a style other than emphasis: \<open>(current_line, writes)\<close>\<close>
  "signature_block fmt fence current_func current_line line_number =
     (if function_style fmt = ''callout'' then
        (case flush fmt current_line line_number of
           Inl e \<Rightarrow> Inl e
         | Inr ws \<Rightarrow>
             Inr ([], ws @
               [FenceClose (fence @ [NL, NL]),
                Text (''> **'' @ clipboard @ '' Function:** `'' @ str_of_name (name current_func) @ ''`'' @ [NL]),
                Text (''> Line '' @ str_of_int line_number @ [NL, NL]),
                FenceOpen (fence @ lang fmt @ [NL])]))
      else if function_style fmt = ''heading'' then
        (case flush fmt current_line line_number of
           Inl e \<Rightarrow> Inl e
         | Inr ws \<Rightarrow>
             Inr ([], ws @
               [FenceClose (fence @ [NL, NL]),
                Text (''### '' @ wrench @ '' '' @ str_of_name (name current_func) @ [NL, NL]),
                FenceOpen (fence @ lang fmt @ [NL])]))
      else Inr (current_line, []))"

definition render_step ::
  "formatter \<Rightarrow> token list \<Rightarrow> func_sig list \<Rightarrow> string \<Rightarrow> nat \<Rightarrow> token \<Rightarrow> string list \<Rightarrow> int
     \<Rightarrow> py_error + (nat \<times> string list \<times> int \<times> chunk list)" where
  \<comment> \<open>the body of the main loop: \<open>(token_idx, current_line, line_number, writes)\<close>\<close>
  "render_step fmt tokens function_signatures fence token_idx tk current_line line_number =
     (let current_func = find (\<lambda>func. token_idx = start_idx func) function_signatures;
          plain = (case emit_token fmt tokens token_idx tk current_line line_number of
                     Inl e \<Rightarrow> Inl e
                   | Inr (current_line, line_number, ws) \<Rightarrow>
                       Inr (token_idx + 1, current_line, line_number, ws))
      in case current_func of
           None \<Rightarrow> plain
         | Some func \<Rightarrow>
             if function_style fmt \<noteq> ''emphasis'' then
               (case signature_block fmt fence func current_line line_number of
                  Inl e \<Rightarrow> Inl e
                | Inr (current_line, ws) \<Rightarrow> Inr (end_idx func, current_line, line_number, ws))
             else plain)"

text \<open>
  The main loop jumps to the end of a signature, so whether it ends depends on the
  records it is given: it is a partial function, as the loop of the pre-pass is.
\<close>

partial_function (option) render_loop ::
  "formatter \<Rightarrow> token list \<Rightarrow> func_sig list \<Rightarrow> string \<Rightarrow> nat \<Rightarrow> string list \<Rightarrow> int \<Rightarrow> chunk list
     \<Rightarrow> (py_error + (string list \<times> int \<times> chunk list)) option" where
  "render_loop fmt tokens function_signatures fence token_idx current_line line_number out =
     (if token_idx < length tokens then
        (case tok_at tokens token_idx of
           Inl e \<Rightarrow> Some (Inl e)
         | Inr tk \<Rightarrow>
             (case render_step fmt tokens function_signatures fence token_idx tk current_line line_number of
                Inl e \<Rightarrow> Some (Inl e)
              | Inr r \<Rightarrow>
                  render_loop fmt tokens function_signatures fence (fst r) (fst (snd r))
                    (fst (snd (snd r))) (out @ snd (snd (snd r)))))
      else Some (Inr (current_line, line_number, out)))"

declare render_loop.simps [code]

definition params_display :: "func_sig \<Rightarrow> string" where
  "params_display func = (if parameters func \<noteq> [] then ''('' @ parameters func @ '')'' else ''()'')"

definition header :: "formatter \<Rightarrow> chunk list" where
  "header fmt =
     (if full fmt then
        [Text (''# '' @ (case title fmt of None \<Rightarrow> ''Code'' | Some t \<Rightarrow> t) @ [NL, NL]),
         Text (''Generated by Pygments Markdown Formatter'' @ [NL, NL])]
      else [])"

definition summary :: "formatter \<Rightarrow> func_sig list \<Rightarrow> chunk list" where
  \<comment> \<open>the list of functions before the fence, under the callout style\<close>
  "summary fmt function_signatures =
     (if function_signatures \<noteq> [] \<and> function_style fmt = ''callout'' then
        [Text (''## '' @ books @ '' Functions Found'' @ [NL, NL])] @
        map (\<lambda>func. Text (''- **'' @ str_of_name (name func) @ ''**'' @ params_display func @
                           '' (line '' @ str_of_int (line_num func) @ '')'' @ [NL])) function_signatures @
        [Text [NL]]
      else [])"

definition trailers :: "formatter \<Rightarrow> func_sig list \<Rightarrow> chunk list" where
  \<comment> \<open>the comment of highlighted lines and, under the emphasis style, the list of functions\<close>
  "trailers fmt function_signatures =
     (if hl_lines fmt \<noteq> [] then
        [Text ([NL] @ ''<!-- Highlighted lines: ''),
         Text (join '', '' (map str_of_int (sort (remdups (hl_lines fmt))))),
         Text ('' -->'' @ [NL])]
      else []) @
     (if function_signatures \<noteq> [] \<and> function_style fmt = ''emphasis'' then
        [Text ([NL] @ ''## '' @ wrench @ '' Functions'' @ [NL, NL])] @
        map (\<lambda>func. Text (''**'' @ str_of_name (name func) @ ''**'' @ params_display func @
                           '' - Line '' @ str_of_int (line_num func) @ [NL])) function_signatures @
        [Text [NL]]
      else [])"

definition format_unencoded :: "formatter \<Rightarrow> token list \<Rightarrow> (py_error + chunk list) option" where
  "format_unencoded fmt tokens =
     (case find_function_signatures fmt tokens of
        None \<Rightarrow> None
      | Some (Inl e) \<Rightarrow> Some (Inl e)
      | Some (Inr (function_signatures, scans)) \<Rightarrow>
          (let fence = repeat (fence_char fmt) (fence_count fmt);
               out = header fmt @ summary fmt function_signatures @
                     [if lang fmt \<noteq> [] then FenceOpen (fence @ lang fmt @ [NL]) else FenceOpen (fence @ [NL])]
           in case render_loop fmt tokens function_signatures fence 0 [] (linenostart fmt) out of
                None \<Rightarrow> None
              | Some (Inl e) \<Rightarrow> Some (Inl e)
              | Some (Inr (current_line, line_number, out)) \<Rightarrow>
                  (case (if current_line \<noteq> []
                         then write_line fmt current_line line_number (Some (tokens, int (length tokens) - 1))
                         else Inr []) of
                     Inl e \<Rightarrow> Some (Inl e)
                   | Inr ws \<Rightarrow>
                       Some (Inr (out @ ws @ [FenceClose (fence @ [NL])] @ trailers fmt function_signatures)))))"

section \<open>The line classifier\<close>

text \<open>
  \<open>is_java_method_start\<close> matches the line against regular expressions of Python's
  \<open>re\<close> module. Those used here have no back-references and no look-around, so a
  match exists exactly when the text is in the language of the expression: \<open>rx_match r s\<close>
  lists the rests of \<open>s\<close> after each prefix of \<open>s\<close> that \<open>r\<close> matches.
\<close>

datatype rx =
    Epsilon
  | Atom "char \<Rightarrow> bool"
  | Cat rx rx
  | Alt rx rx
  | Star rx

fun rx_match :: "rx \<Rightarrow> string \<Rightarrow> string list" where
  "rx_match Epsilon s = [s]"
| "rx_match (Atom P) s = (case s of [] \<Rightarrow> [] | c # cs \<Rightarrow> if P c then [cs] else [])"
| "rx_match (Cat a b) s = remdups (concat (map (rx_match b) (rx_match a s)))"
| "rx_match (Alt a b) s = remdups (rx_match a s @ rx_match b s)"
| "rx_match (Star a) s =
     remdups (s # concat (map (rx_match (Star a)) (filter (\<lambda>t. length t < length s) (rx_match a s))))"

inductive matches :: "rx \<Rightarrow> string \<Rightarrow> bool" where
  m_eps: "matches Epsilon []"
| m_atom: "P c \<Longrightarrow> matches (Atom P) [c]"
| m_cat: "matches a u \<Longrightarrow> matches b v \<Longrightarrow> matches (Cat a b) (u @ v)"
| m_alt1: "matches a u \<Longrightarrow> matches (Alt a b) u"
| m_alt2: "matches b u \<Longrightarrow> matches (Alt a b) u"
| m_star0: "matches (Star a) []"
| m_star: "matches a u \<Longrightarrow> matches (Star a) v \<Longrightarrow> matches (Star a) (u @ v)"










definition re_match_to_end :: "rx \<Rightarrow> string \<Rightarrow> bool" where
  \<comment> \<open>\<open>re.match\<close> of an expression that ends in \<open>$\<close>: a prefix matches up to the end
      of the text, or up to a line break that ends the text\<close>
  "re_match_to_end r s = list_ex (\<lambda>t. t = [] \<or> t = [CHR 0x0A]) (rx_match r s)"

























definition diamond :: string where
  "diamond = [CHR 0xF0, CHR 0x9F, CHR 0x94, CHR 0xB9]"

definition format_function_signature :: "formatter \<Rightarrow> token list \<Rightarrow> nat \<Rightarrow> nat \<Rightarrow> string \<Rightarrow> string" where
  \<comment> \<open>\<open>_format_function_signature\<close>; \<open>format_unencoded\<close> never calls it\<close>
  "format_function_signature fmt tokens i j function_name =
     (let signature_text = slice_text tokens i j in
      if function_style fmt = ''callout'' then
        ''> **'' @ clipboard @ '' Function:** `'' @ function_name @ ''`'' @ [NL] @ ''> ```'' @ [NL] @
        ''> '' @ strip signature_text @ [NL] @ ''> ```'' @ [NL]
      else if function_style fmt = ''heading'' then
        ''### '' @ wrench @ '' '' @ function_name @ [NL] @ ''```'' @ [NL] @
        strip signature_text @ [NL] @ ''```'' @ [NL]
      else ''**'' @ diamond @ '' '' @ function_name @ ''** '' @ strip signature_text @ [NL])"

section \<open>Reading the output\<close>

definition is_fence_open :: "chunk \<Rightarrow> bool" where
  "is_fence_open w = (case w of FenceOpen s \<Rightarrow> True | _ \<Rightarrow> False)"

definition is_fence_close :: "chunk \<Rightarrow> bool" where
  "is_fence_close w = (case w of FenceClose s \<Rightarrow> True | _ \<Rightarrow> False)"

definition opening_fences :: "chunk list \<Rightarrow> nat" where
  "opening_fences out = length (filter is_fence_open out)"

definition closing_fences :: "chunk list \<Rightarrow> nat" where
  "closing_fences out = length (filter is_fence_close out)"

fun emitted_lines :: "chunk list \<Rightarrow> (int \<times> string \<times> string) list" where
  "emitted_lines [] = []"
| "emitted_lines (Line n line_content annotation # out) = (n, line_content, annotation) # emitted_lines out"
| "emitted_lines (w # out) = emitted_lines out"

text \<open>
  \<open>emitted_lines\<close> lists the lines of code in the output, each with the line number it
  was given, its content and its annotation.
\<close>

definition line_numbers :: "chunk list \<Rightarrow> int list" where
  "line_numbers out = map fst (emitted_lines out)"

definition line_contents :: "chunk list \<Rightarrow> string list" where
  "line_contents out = map (\<lambda>l. fst (snd l)) (emitted_lines out)"

definition lines_text :: "chunk list \<Rightarrow> string" where
  \<comment> \<open>the lines of code of the output, each with its line break, without prefix or annotation\<close>
  "lines_text out = concat (map (\<lambda>c. c @ [NL]) (line_contents out))"

definition source_text :: "token list \<Rightarrow> string" where
  "source_text tokens = concat (map snd tokens)"

fun consecutive :: "int \<Rightarrow> int list \<Rightarrow> bool" where
  \<comment> \<open>the numbers \<open>n\<close>, \<open>n + 1\<close>, \<open>n + 2\<close> and so on, in this order\<close>
  "consecutive n [] = True"
| "consecutive n (x # xs) = (x = n \<and> consecutive (n + 1) xs)"

definition is_function_marker :: "string \<Rightarrow> bool" where
  \<comment> \<open>the annotation of a function line, for some function name\<close>
  "is_function_marker annotation = startswith annotation (function_marker '''')"

definition annotation_ok :: "formatter \<Rightarrow> int \<times> string \<times> string \<Rightarrow> bool" where
  \<comment> \<open>the annotation a line may carry: none, the highlight, or the mark of a function line\<close>
  "annotation_ok fmt l =
     (case l of (n, c, a) \<Rightarrow>
        (a = [] \<and> n \<notin> set (hl_lines fmt)) \<or> (a = highlight_marker \<and> n \<in> set (hl_lines fmt)) \<or>
        (is_function_marker a \<and> highlight_functions fmt \<and> function_style fmt = ''emphasis''))"

definition lines_ok :: "formatter \<Rightarrow> chunk list \<Rightarrow> bool" where
  "lines_ok fmt out = list_all (annotation_ok fmt) (emitted_lines out)"

section \<open>Token streams used as examples\<close>

definition stream_def_fx :: "token list" where
  \<comment> \<open>\<open>def f(x):\<close> and a line break\<close>
  "stream_def_fx = [(Keyword, ''def''), (Whitespace, '' ''), (Name_Function, ''f''),
     (Punctuation, ''(''), (Name, ''x''), (Punctuation, '')''), (Punctuation, '':''),
     (Whitespace, [NL])]"

definition stream_x_def :: "token list" where
  \<comment> \<open>a line \<open>x\<close>, then the line \<open>def f():\<close>\<close>
  "stream_x_def = [(Name, ''x''), (Whitespace, [NL]), (Keyword, ''def''), (Whitespace, '' ''),
     (Name_Function, ''f''), (Punctuation, ''(''), (Punctuation, '')''), (Punctuation, '':''),
     (Whitespace, [NL])]"

definition stream_two_defs :: "token list" where
  \<comment> \<open>the lines \<open>def f():\<close> and \<open>def g():\<close>\<close>
  "stream_two_defs = [(Keyword, ''def''), (Whitespace, '' ''), (Name_Function, ''f''),
     (Punctuation, ''(''), (Punctuation, '')''), (Punctuation, '':''), (Whitespace, [NL]),
     (Keyword, ''def''), (Whitespace, '' ''), (Name_Function, ''g''),
     (Punctuation, ''(''), (Punctuation, '')''), (Punctuation, '':''), (Whitespace, [NL])]"




definition rendered_lines :: "formatter \<Rightarrow> token list \<Rightarrow> (int \<times> string \<times> string) list option" where
  \<comment> \<open>the lines of code of a rendering that ends without an error\<close>
  "rendered_lines fmt tokens =
     (case format_unencoded fmt tokens of Some (Inr out) \<Rightarrow> Some (emitted_lines out) | _ \<Rightarrow> None)"

definition rendered_text :: "formatter \<Rightarrow> token list \<Rightarrow> string option" where
  \<comment> \<open>the text of a rendering that ends without an error\<close>
  "rendered_text fmt tokens =
     (case format_unencoded fmt tokens of Some (Inr out) \<Rightarrow> Some (written out) | _ \<Rightarrow> None)"

definition callout_options :: formatter where
  "callout_options = default_options\<lparr>function_style := ''callout''\<rparr>"

definition heading_options :: formatter where
  "heading_options = default_options\<lparr>function_style := ''heading''\<rparr>"



definition fence_counts :: "formatter \<Rightarrow> token list \<Rightarrow> (nat \<times> nat) option" where
  \<comment> \<open>the numbers of opening and of closing fences of a rendering that ends without an error\<close>
  "fence_counts fmt tokens =
     (case format_unencoded fmt tokens of
        Some (Inr out) \<Rightarrow> Some (opening_fences out, closing_fences out) | _ \<Rightarrow> None)"

definition signature_ranges :: "formatter \<Rightarrow> token list \<Rightarrow> ((nat \<times> nat) list \<times> nat list) option" where
  \<comment> \<open>the ranges of the records of a pre-pass that ends without an error, and its scans\<close>
  "signature_ranges fmt tokens =
     (case find_function_signatures fmt tokens of
        Some (Inr (sigs, scans)) \<Rightarrow> Some (map (\<lambda>s. (start_idx s, end_idx s)) sigs, scans) | _ \<Rightarrow> None)"

section \<open>Properties of the loops\<close>

subsection \<open>The scanner's loops\<close>

lemma skip_whitespace_ok: "\<exists>j. skip_whitespace tokens i = Inr j \<and> i \<le> j"
proof (induction tokens i rule: skip_whitespace.induct)
  case (1 tokens i)
  show ?case
  proof (cases "i < length tokens \<and> fst (tokens ! i) = Whitespace")
    case True
    with 1[of "tokens ! i"] obtain j where "skip_whitespace tokens (i + 1) = Inr j" "i + 1 \<le> j"
      by (auto simp: tok_at_def)
    with True show ?thesis
      by (subst skip_whitespace.simps) (simp add: tok_at_def)
  next
    case False
    then show ?thesis
      by (subst skip_whitespace.simps) (auto simp: tok_at_def)
  qed
qed

lemma look_back_ok: "i \<le> length tokens \<Longrightarrow> \<exists>p. look_back tokens i j prev = Inr p"
proof (induction tokens i j prev rule: look_back.induct)
  case (1 tokens i j prev)
  show ?case
  proof (cases "j < i")
    case True
    with 1 show ?thesis
      by (subst look_back.simps) (simp add: tok_at_def)
  next
    case False
    then show ?thesis
      by (subst look_back.simps) simp
  qed
qed

lemma detect_head_ok:
  "i < length tokens \<Longrightarrow> \<exists>b j. detect_head tokens i t v = Inr (b, j) \<and> i \<le> j"
  using look_back_ok[of i tokens "nat (max 0 (int i - 5))" "[]"]
  by (auto simp: detect_head_def Let_def)

lemma seek_paren_ok:
  "\<exists>r. seek_paren tokens i = Inr r \<and>
     (\<forall>p. r = Some p \<longrightarrow> i \<le> p \<and> p < length tokens \<and> tokens ! p = (Punctuation, ''(''))"
proof (induction tokens i rule: seek_paren.induct)
  case (1 tokens i)
  show ?case
  proof (cases "i < length tokens \<and> \<not> (fst (tokens ! i) = Punctuation \<and> snd (tokens ! i) = ''('') \<and> fst (tokens ! i) = Whitespace")
    case True
    with 1[of "tokens ! i"] obtain r where "seek_paren tokens (i + 1) = Inr r"
      "\<forall>p. r = Some p \<longrightarrow> i + 1 \<le> p \<and> p < length tokens \<and> tokens ! p = (Punctuation, ''('')"
      by (auto simp: tok_at_def)
    with True show ?thesis
      by (subst seek_paren.simps) (auto simp: tok_at_def)
  next
    case False
    then show ?thesis
      by (subst seek_paren.simps) (auto simp: tok_at_def prod_eq_iff)
  qed
qed

lemma scan_params_ok:
  "\<exists>j ps. scan_params tokens i c acc = Inr (j, ps) \<and> i \<le> j \<and> j \<le> max i (length tokens) \<and>
     (0 < c \<and> j < length tokens \<longrightarrow> i < j \<and> tokens ! (j - 1) = (Punctuation, '')''))"
proof (induction tokens i c acc rule: scan_params.induct)
  case (1 tokens i c acc)
  show ?case
  proof (cases "i < length tokens \<and> c > 0")
    case True
    then have t: "tok_at tokens i = Inr (tokens ! i)"
      by (simp add: tok_at_def)
    define c' where "c' = (if fst (tokens ! i) = Punctuation then
                       (if snd (tokens ! i) = ''('' then c + 1
                        else if snd (tokens ! i) = '')'' then c - 1 else c)
                     else c)"
    define acc' where "acc' = (if c' > 0 then acc @ [tokens ! i] else acc)"
    from 1[OF True t c'_def acc'_def] obtain j ps where
      r: "scan_params tokens (i + 1) c' acc' = Inr (j, ps)" "i + 1 \<le> j" "j \<le> max (i + 1) (length tokens)"
      "0 < c' \<and> j < length tokens \<longrightarrow> i + 1 < j \<and> tokens ! (j - 1) = (Punctuation, '')'')"
      by blast
    have eq: "scan_params tokens i c acc = scan_params tokens (i + 1) c' acc'"
      using True by (subst scan_params.simps) (simp add: t Let_def c'_def acc'_def)
    have "tokens ! (j - 1) = (Punctuation, '')'')" if "j < length tokens"
    proof (cases "0 < c'")
      case True
      with r(4) that show ?thesis by simp
    next
      case False
      then have "scan_params tokens (i + 1) c' acc' = Inr (i + 1, acc')"
        by (subst scan_params.simps) simp
      with r(1) have j: "j = i + 1" by simp
      from False True have "tokens ! i = (Punctuation, '')'')"
        by (auto simp: c'_def prod_eq_iff split: if_splits)
      with j show ?thesis by simp
    qed
    with eq r True show ?thesis
      by auto
  next
    case False
    then show ?thesis
      by (subst scan_params.simps) auto
  qed
qed

lemma scan_terminator_ok:
  "\<exists>e. scan_terminator tokens i = Inr e \<and> i \<le> e \<and> e \<le> max i (length tokens) \<and>
     (\<forall>k. i \<le> k \<and> k < e \<longrightarrow> \<not> is_terminator (snd (tokens ! k))) \<and>
     (e < length tokens \<longrightarrow> is_terminator (snd (tokens ! e)))"
proof (induction tokens i rule: scan_terminator.induct)
  case (1 tokens i)
  show ?case
  proof (cases "i < length tokens \<and> \<not> is_terminator (snd (tokens ! i))")
    case True
    with 1[of "tokens ! i"] obtain e where e: "scan_terminator tokens (i + 1) = Inr e"
      "i + 1 \<le> e" "e \<le> max (i + 1) (length tokens)"
      "\<forall>k. i + 1 \<le> k \<and> k < e \<longrightarrow> \<not> is_terminator (snd (tokens ! k))"
      "e < length tokens \<longrightarrow> is_terminator (snd (tokens ! e))"
      by (auto simp: tok_at_def)
    have "\<forall>k. i \<le> k \<and> k < e \<longrightarrow> \<not> is_terminator (snd (tokens ! k))"
    proof (intro allI impI)
      fix k assume "i \<le> k \<and> k < e"
      then show "\<not> is_terminator (snd (tokens ! k))"
        using e(4) True by (cases "k = i") auto
    qed
    with True e show ?thesis
      by (subst scan_terminator.simps) (auto simp: tok_at_def)
  next
    case False
    then show ?thesis
      by (subst scan_terminator.simps) (auto simp: tok_at_def)
  qed
qed


lemma is_function_definition_cases:
  obtains (fail) "is_function_definition fmt tokens s = Inr (False, None, None, s)"
  | (found) i p j pts e where
      "is_function_definition fmt tokens s = Inr (True, Some (snd (tokens ! i)), Some (normalize_parameters pts), e)"
      "s \<le> i" "i < p" "p < length tokens" "tokens ! p = (Punctuation, ''('')"
      "scan_params tokens (p + 1) 1 [] = Inr (j, pts)" "p < j" "j \<le> length tokens"
      "j = length tokens \<or> tokens ! (j - 1) = (Punctuation, '')'')"
      "scan_terminator tokens j = Inr e"
proof (cases "highlight_functions fmt")
  case False
  then show ?thesis
    by (intro fail) (simp add: is_function_definition_def)
next
  case hf: True
  obtain i0 where i0: "skip_whitespace tokens s = Inr i0" "s \<le> i0"
    using skip_whitespace_ok by blast
  show ?thesis
  proof (cases "i0 \<ge> length tokens")
    case True
    then show ?thesis
      by (intro fail) (simp add: is_function_definition_def hf i0)
  next
    case lt0: False
    then have t0: "tok_at tokens i0 = Inr (tokens ! i0)"
      by (simp add: tok_at_def)
    from lt0 obtain b i1 where
      h: "detect_head tokens i0 (fst (tokens ! i0)) (snd (tokens ! i0)) = Inr (b, i1)" "i0 \<le> i1"
      using detect_head_ok[of i0 tokens] by (metis not_le)
    show ?thesis
    proof (cases b)
      case False
      then show ?thesis
        using lt0 by (intro fail) (simp add: is_function_definition_def hf i0 t0 h)
    next
      case b: True
      obtain i2 where i2: "skip_whitespace tokens i1 = Inr i2" "i1 \<le> i2"
        using skip_whitespace_ok by blast
      show ?thesis
      proof (cases "i2 \<ge> length tokens")
        case True
        then show ?thesis
          using lt0 by (intro fail) (simp add: is_function_definition_def hf i0 t0 h b i2)
      next
        case lt2: False
        then have t2: "tok_at tokens i2 = Inr (tokens ! i2)"
          by (simp add: tok_at_def)
        show ?thesis
        proof (cases "fst (tokens ! i2) = Name \<or> fst (tokens ! i2) = Name_Function
                        \<or> fst (tokens ! i2) = Name_Other")
          case False
          then show ?thesis
            using lt0 lt2 by (intro fail) (simp add: is_function_definition_def hf i0 t0 h b i2 t2)
        next
          case nm: True
          obtain r where r: "seek_paren tokens (i2 + 1) = Inr r"
            "\<forall>p. r = Some p \<longrightarrow> i2 + 1 \<le> p \<and> p < length tokens \<and> tokens ! p = (Punctuation, ''('')"
            using seek_paren_ok by blast
          show ?thesis
          proof (cases r)
            case None
            then show ?thesis
              using lt0 lt2 nm r(1)
              by (intro fail) (simp add: is_function_definition_def hf i0 t0 h b i2 t2)
          next
            case (Some p)
            obtain j pts where sp: "scan_params tokens (p + 1) 1 [] = Inr (j, pts)" "p + 1 \<le> j"
              "j \<le> max (p + 1) (length tokens)"
              "0 < (1::int) \<and> j < length tokens \<longrightarrow> p + 1 < j \<and> tokens ! (j - 1) = (Punctuation, '')'')"
              using scan_params_ok by blast
            obtain e where e: "scan_terminator tokens j = Inr e"
              using scan_terminator_ok by blast
            have "is_function_definition fmt tokens s =
                    Inr (True, Some (snd (tokens ! i2)), Some (normalize_parameters pts), e)"
              using lt0 lt2 nm r(1) sp(1) e
              by (simp add: is_function_definition_def hf i0 t0 h b i2 t2 Some)
            moreover have "s \<le> i2" "i2 < p" "p < length tokens" "tokens ! p = (Punctuation, ''('')" "p < j"
              "j \<le> length tokens" "j = length tokens \<or> tokens ! (j - 1) = (Punctuation, '')'')"
              using i0 h i2 r Some sp by auto
            ultimately show ?thesis
              using sp e by (intro found)
          qed
        qed
      qed
    qed
  qed
qed

subsection \<open>The pre-pass\<close>

lemma make_sig_idx [simp]:
  "start_idx (make_sig tokens i r) = i" "end_idx (make_sig tokens i r) = snd (snd (snd r))"
  by (simp_all add: make_sig_def split: prod.splits)

lemma scan_progress:
  assumes "is_function_definition fmt tokens s = Inr r" and "fst r"
  shows "s < snd (snd (snd r))"
proof (cases rule: is_function_definition_cases[of fmt tokens s])
  case fail
  with assms show ?thesis by auto
next
  case (found i p j pts e)
  obtain e' where "scan_terminator tokens j = Inr e'" "j \<le> e'"
    using scan_terminator_ok by blast
  with found assms show ?thesis by auto
qed

lemma find_loop_invariant:
  assumes "sorted_wrt (\<lambda>a b. end_idx a \<le> start_idx b) sigs"
    and "\<forall>s\<in>set sigs. start_idx s < end_idx s \<and> end_idx s \<le> i"
    and "\<forall>p\<in>set scans. p < i"
    and "\<forall>s\<in>set sigs. \<forall>p\<in>set scans. start_idx s < p \<longrightarrow> end_idx s \<le> p"
  shows "\<exists>sigs' scans'. find_loop fmt tokens i sigs scans = Some (Inr (sigs', scans')) \<and>
           sorted_wrt (\<lambda>a b. end_idx a \<le> start_idx b) sigs' \<and>
           (\<forall>s\<in>set sigs'. start_idx s < end_idx s) \<and>
           (\<forall>s\<in>set sigs'. \<forall>p\<in>set scans'. start_idx s < p \<longrightarrow> end_idx s \<le> p)"
  using assms
proof (induction "length tokens - i" arbitrary: i sigs scans rule: less_induct)
  case less
  show ?case
  proof (cases "i < length tokens")
    case False
    then have "find_loop fmt tokens i sigs scans = Some (Inr (sigs, scans))"
      by (subst find_loop.simps) simp
    with less.prems show ?thesis by auto
  next
    case True
    obtain r where r: "is_function_definition fmt tokens i = Inr r"
      by (cases rule: is_function_definition_cases[of fmt tokens i]) auto
    show ?thesis
    proof (cases "fst r")
      case False
      have eq: "find_loop fmt tokens i sigs scans = find_loop fmt tokens (i + 1) sigs (scans @ [i])"
        using True r False by (subst find_loop.simps) simp
      have "\<exists>sigs' scans'. find_loop fmt tokens (i + 1) sigs (scans @ [i]) = Some (Inr (sigs', scans')) \<and>
           sorted_wrt (\<lambda>a b. end_idx a \<le> start_idx b) sigs' \<and>
           (\<forall>s\<in>set sigs'. start_idx s < end_idx s) \<and>
           (\<forall>s\<in>set sigs'. \<forall>p\<in>set scans'. start_idx s < p \<longrightarrow> end_idx s \<le> p)"
      proof (rule less.hyps)
        show "length tokens - (i + 1) < length tokens - i" using True by simp
        show "sorted_wrt (\<lambda>a b. end_idx a \<le> start_idx b) sigs" by (rule less.prems)
        show "\<forall>s\<in>set sigs. start_idx s < end_idx s \<and> end_idx s \<le> i + 1"
          using less.prems(2) by auto
        show "\<forall>p\<in>set (scans @ [i]). p < i + 1"
          using less.prems(3) by auto
        show "\<forall>s\<in>set sigs. \<forall>p\<in>set (scans @ [i]). start_idx s < p \<longrightarrow> end_idx s \<le> p"
          using less.prems(2,4) by auto
      qed
      with eq show ?thesis by simp
    next
      case found: True
      define e where "e = snd (snd (snd r))"
      define sg where "sg = make_sig tokens i r"
      have ie: "i < e"
        using scan_progress[OF r found] by (simp add: e_def)
      have sg: "start_idx sg = i" "end_idx sg = e"
        by (simp_all add: sg_def e_def)
      have eq: "find_loop fmt tokens i sigs scans = find_loop fmt tokens e (sigs @ [sg]) (scans @ [i])"
        using True r found by (subst find_loop.simps) (simp add: e_def sg_def)
      have "\<exists>sigs' scans'. find_loop fmt tokens e (sigs @ [sg]) (scans @ [i]) = Some (Inr (sigs', scans')) \<and>
           sorted_wrt (\<lambda>a b. end_idx a \<le> start_idx b) sigs' \<and>
           (\<forall>s\<in>set sigs'. start_idx s < end_idx s) \<and>
           (\<forall>s\<in>set sigs'. \<forall>p\<in>set scans'. start_idx s < p \<longrightarrow> end_idx s \<le> p)"
      proof (rule less.hyps)
        show "length tokens - e < length tokens - i" using True ie by simp
        show "sorted_wrt (\<lambda>a b. end_idx a \<le> start_idx b) (sigs @ [sg])"
          using less.prems(1,2) by (simp add: sorted_wrt_append sg)
        show "\<forall>s\<in>set (sigs @ [sg]). start_idx s < end_idx s \<and> end_idx s \<le> e"
          using less.prems(2) ie by (auto simp: sg)
        show "\<forall>p\<in>set (scans @ [i]). p < e"
          using less.prems(3) ie by auto
        show "\<forall>s\<in>set (sigs @ [sg]). \<forall>p\<in>set (scans @ [i]). start_idx s < p \<longrightarrow> end_idx s \<le> p"
          using less.prems(2,3,4) by (auto simp: sg)
      qed
      with eq show ?thesis by simp
    qed
  qed
qed

lemma find_function_signatures_ok:
  "\<exists>sigs scans. find_function_signatures fmt tokens = Some (Inr (sigs, scans)) \<and>
     sorted_wrt (\<lambda>a b. end_idx a \<le> start_idx b) sigs \<and>
     (\<forall>s\<in>set sigs. start_idx s < end_idx s) \<and>
     (\<forall>s\<in>set sigs. \<forall>p\<in>set scans. start_idx s < p \<longrightarrow> end_idx s \<le> p)"
proof (cases "highlight_functions fmt")
  case True
  then show ?thesis
    using find_loop_invariant[of "[]" 0 "[]" fmt tokens]
    by (simp add: find_function_signatures_def)
next
  case False
  then show ?thesis
    by (simp add: find_function_signatures_def)
qed

subsection \<open>The renderer\<close>

lemma split_from_nonempty: "split_from sep cur s \<noteq> []"
  by (induction s arbitrary: cur) auto

lemma split_nonempty: "split s sep \<noteq> []"
  by (simp add: split_def split_from_nonempty)

lemma startswith_append: "startswith (p @ s) p"
  by (induction p) simp_all

lemma is_function_marker_marker: "is_function_marker (function_marker fn)"
  using startswith_append[of "function_marker ''''" fn]
  by (simp add: is_function_marker_def function_marker_def)

lemma opening_fences_append [simp]: "opening_fences (xs @ ys) = opening_fences xs + opening_fences ys"
  by (simp add: opening_fences_def)

lemma closing_fences_append [simp]: "closing_fences (xs @ ys) = closing_fences xs + closing_fences ys"
  by (simp add: closing_fences_def)

lemma emitted_lines_append [simp]: "emitted_lines (xs @ ys) = emitted_lines xs @ emitted_lines ys"
  by (induction xs rule: emitted_lines.induct) simp_all

lemma line_tokens_loop_ok: "\<exists>lt. line_tokens_loop tokens ti ln i temp acc = Inr lt"
proof (induction "nat (min (int (length tokens) - 1) (ti + 10) + 1 - int i)"
    arbitrary: i temp acc rule: less_induct)
  case less
  show ?case
  proof (cases "int i \<le> min (int (length tokens) - 1) (ti + 10)")
    case False
    then have "line_tokens_loop tokens ti ln i temp acc = Inr acc"
      by (subst line_tokens_loop.simps) (simp only: if_False)
    then show ?thesis
      by simp
  next
    case True
    have IH: "\<exists>lt. line_tokens_loop tokens ti ln (Suc i) temp' acc' = Inr lt" for temp' acc'
      using less.hyps[of "Suc i" temp' acc'] True by simp
    show ?thesis
    proof (cases "i < length tokens")
      case False
      with True IH show ?thesis
        by (subst line_tokens_loop.simps) simp
    next
      case lt: True
      obtain first rest where sp: "split (snd (tokens ! i)) NL = first # rest"
        using split_nonempty[of "snd (tokens ! i)" NL] by (cases "split (snd (tokens ! i)) NL") auto
      show ?thesis
        using True lt IH
        by (subst line_tokens_loop.simps) (simp add: tok_at_def sp Let_def)
    qed
  qed
qed

lemma function_line_ok:
  "\<exists>b fn. function_line fmt ln ctx = Inr (b, fn) \<and>
     (b \<longrightarrow> highlight_functions fmt \<and> function_style fmt = ''emphasis'')"
proof (cases ctx)
  case None
  then show ?thesis by (auto simp: function_line_def)
next
  case (Some c)
  obtain tokens ti where c: "c = (tokens, ti)" by (cases c)
  obtain lt where
    "line_tokens_loop tokens ti ln (nat (max 0 (ti - 10))) ln [] = Inr lt"
    using line_tokens_loop_ok by blast
  then show ?thesis
    by (auto simp: function_line_def Some c Let_def)
qed

lemma write_line_ok:
  "\<exists>ws a. write_line fmt parts ln ctx = Inr ws \<and> opening_fences ws = 0 \<and> closing_fences ws = 0 \<and>
     emitted_lines ws = [(ln, concat parts, a)] \<and> annotation_ok fmt (ln, concat parts, a)"
proof -
  obtain b fn where f: "function_line fmt ln ctx = Inr (b, fn)"
    "b \<longrightarrow> highlight_functions fmt \<and> function_style fmt = ''emphasis''"
    using function_line_ok by blast
  then show ?thesis
    using is_function_marker_marker[of fn]
    by (auto simp: write_line_def Let_def opening_fences_def closing_fences_def is_fence_open_def
        is_fence_close_def annotation_ok_def)
qed

lemma lines_ok_append [simp]: "lines_ok fmt (xs @ ys) \<longleftrightarrow> lines_ok fmt xs \<and> lines_ok fmt ys"
  by (simp add: lines_ok_def)

lemma lines_ok_Nil [simp]: "lines_ok fmt []"
  by (simp add: lines_ok_def)

lemma fences_Nil [simp]: "opening_fences [] = 0" "closing_fences [] = 0"
  by (simp_all add: opening_fences_def closing_fences_def)

lemma write_line_good:
  "\<exists>ws. write_line fmt parts ln ctx = Inr ws \<and> opening_fences ws = 0 \<and> closing_fences ws = 0 \<and>
     lines_ok fmt ws"
  using write_line_ok[of fmt parts ln ctx] by (auto simp: lines_ok_def)

lemma emit_middle_ok:
  "\<exists>ln' ws. emit_middle fmt tokens ti tt parts ln out = Inr (ln', out @ ws) \<and>
     opening_fences ws = 0 \<and> closing_fences ws = 0 \<and> lines_ok fmt ws"
proof (induction parts arbitrary: ln out)
  case Nil
  show ?case by simp
next
  case (Cons part parts)
  obtain ws where ws: "write_line fmt (if part \<noteq> [] then [styled fmt tt part] else []) ln
      (Some (tokens, int ti)) = Inr ws" "opening_fences ws = 0" "closing_fences ws = 0" "lines_ok fmt ws"
    using write_line_good by blast
  obtain ln' ws' where r: "emit_middle fmt tokens ti tt parts (ln + 1) (out @ ws) = Inr (ln', (out @ ws) @ ws')"
    "opening_fences ws' = 0" "closing_fences ws' = 0" "lines_ok fmt ws'"
    using Cons.IH by blast
  have "emit_middle fmt tokens ti tt (part # parts) ln out = Inr (ln', out @ (ws @ ws'))"
    using ws(1) r(1) by simp
  moreover have "opening_fences (ws @ ws') = 0" "closing_fences (ws @ ws') = 0" "lines_ok fmt (ws @ ws')"
    using ws r by simp_all
  ultimately show ?case by blast
qed

lemma emit_token_ok:
  "\<exists>cl ln' ws. emit_token fmt tokens ti tk cl0 ln = Inr (cl, ln', ws) \<and>
     opening_fences ws = 0 \<and> closing_fences ws = 0 \<and> lines_ok fmt ws"
proof -
  obtain tt v where tk: "tk = (tt, v)"
    by (cases tk)
  show ?thesis
  proof (cases "has_nl v")
    case False
    then show ?thesis
      by (simp add: emit_token_def tk)
  next
    case True
    obtain first rest where sp: "split v NL = first # rest"
      using split_nonempty[of v NL] by (cases "split v NL") auto
    define cl1 where "cl1 = (if first \<noteq> [] then cl0 @ [styled fmt tt first] else cl0)"
    define cl2 where "cl2 = (if rest \<noteq> [] \<and> last rest \<noteq> [] then [styled fmt tt (last rest)] else [])"
    have step: "emit_token fmt tokens ti tk cl0 ln =
        (case write_line fmt cl1 ln (Some (tokens, int ti)) of
           Inl e \<Rightarrow> Inl e
         | Inr ws \<Rightarrow>
             (case emit_middle fmt tokens ti tt (butlast rest) (ln + 1) ws of
                Inl e \<Rightarrow> Inl e
              | Inr (line_number, out) \<Rightarrow> Inr (cl2, line_number, out)))"
      unfolding emit_token_def tk cl1_def cl2_def Let_def
      by (simp add: True sp)
    obtain ws where ws: "write_line fmt cl1 ln (Some (tokens, int ti)) = Inr ws"
      "opening_fences ws = 0" "closing_fences ws = 0" "lines_ok fmt ws"
      using write_line_good by blast
    obtain ln' ws' where r: "emit_middle fmt tokens ti tt (butlast rest) (ln + 1) ws = Inr (ln', ws @ ws')"
      "opening_fences ws' = 0" "closing_fences ws' = 0" "lines_ok fmt ws'"
      using emit_middle_ok by blast
    have "emit_token fmt tokens ti tk cl0 ln = Inr (cl2, ln', ws @ ws')"
      by (simp add: step ws(1) r(1))
    moreover have "opening_fences (ws @ ws') = 0" "closing_fences (ws @ ws') = 0" "lines_ok fmt (ws @ ws')"
      using ws r by simp_all
    ultimately show ?thesis by blast
  qed
qed

lemma flush_ok:
  "\<exists>ws. flush fmt cl ln = Inr ws \<and> opening_fences ws = 0 \<and> closing_fences ws = 0 \<and> lines_ok fmt ws"
  using write_line_good[of fmt cl ln None] by (auto simp: flush_def)

lemma signature_block_ok:
  "\<exists>cl ws. signature_block fmt fence func cl0 ln = Inr (cl, ws) \<and>
     opening_fences ws = closing_fences ws \<and> lines_ok fmt ws"
proof -
  obtain ws where ws: "flush fmt cl0 ln = Inr ws" "opening_fences ws = 0" "closing_fences ws = 0"
    "lines_ok fmt ws"
    using flush_ok by blast
  then show ?thesis
    by (auto simp: signature_block_def opening_fences_def closing_fences_def is_fence_open_def
        is_fence_close_def lines_ok_def)
qed

lemma render_step_ok:
  assumes "\<forall>s\<in>set sigs. start_idx s < end_idx s"
  shows "\<exists>ti' cl ln' ws. render_step fmt tokens sigs fence ti tk cl0 ln = Inr (ti', cl, ln', ws) \<and>
     ti < ti' \<and> opening_fences ws = closing_fences ws \<and> lines_ok fmt ws"
proof -
  obtain cl ln' ws where e: "emit_token fmt tokens ti tk cl0 ln = Inr (cl, ln', ws)"
    "opening_fences ws = 0" "closing_fences ws = 0" "lines_ok fmt ws"
    using emit_token_ok by blast
  show ?thesis
  proof (cases "find (\<lambda>func. ti = start_idx func) sigs")
    case None
    with e show ?thesis
      by (simp add: render_step_def)
  next
    case (Some func)
    then have f: "func \<in> set sigs" "ti = start_idx func"
      by (auto simp: find_Some_iff)
    with assms have lt: "ti < end_idx func"
      by auto
    obtain cl' ws' where s: "signature_block fmt fence func cl0 ln = Inr (cl', ws')"
      "opening_fences ws' = closing_fences ws'" "lines_ok fmt ws'"
      using signature_block_ok by blast
    show ?thesis
    proof (cases "function_style fmt \<noteq> ''emphasis''")
      case True
      with Some s lt show ?thesis
        by (simp add: render_step_def)
    next
      case False
      with Some e show ?thesis
        by (simp add: render_step_def)
    qed
  qed
qed

lemma render_loop_ok:
  assumes "\<forall>s\<in>set sigs. start_idx s < end_idx s"
  shows "\<exists>cl ln' ws. render_loop fmt tokens sigs fence ti cl0 ln out = Some (Inr (cl, ln', out @ ws)) \<and>
     opening_fences ws = closing_fences ws \<and> lines_ok fmt ws"
proof (induction "length tokens - ti" arbitrary: ti cl0 ln out rule: less_induct)
  case less
  show ?case
  proof (cases "ti < length tokens")
    case False
    then have "render_loop fmt tokens sigs fence ti cl0 ln out = Some (Inr (cl0, ln, out @ []))"
      by (subst render_loop.simps) simp
    then show ?thesis
      by (metis fences_Nil lines_ok_Nil)
  next
    case True
    obtain ti' cl ln' ws where st:
      "render_step fmt tokens sigs fence ti (tokens ! ti) cl0 ln = Inr (ti', cl, ln', ws)"
      "ti < ti'" "opening_fences ws = closing_fences ws" "lines_ok fmt ws"
      using render_step_ok[OF assms] by blast
    have eq: "render_loop fmt tokens sigs fence ti cl0 ln out =
                render_loop fmt tokens sigs fence ti' cl ln' (out @ ws)"
      using True st(1) by (subst render_loop.simps) (simp add: tok_at_def)
    have "length tokens - ti' < length tokens - ti"
      using True st(2) by simp
    from less.hyps[OF this, of cl ln' "out @ ws"] obtain cl2 ln2 ws2 where
      r: "render_loop fmt tokens sigs fence ti' cl ln' (out @ ws) = Some (Inr (cl2, ln2, (out @ ws) @ ws2))"
      "opening_fences ws2 = closing_fences ws2" "lines_ok fmt ws2"
      by blast
    have "render_loop fmt tokens sigs fence ti cl0 ln out = Some (Inr (cl2, ln2, out @ (ws @ ws2)))"
      using eq r(1) by simp
    moreover have "opening_fences (ws @ ws2) = closing_fences (ws @ ws2)" "lines_ok fmt (ws @ ws2)"
      using st r by simp_all
    ultimately show ?thesis by blast
  qed
qed

lemma text_chunks:
  assumes "\<forall>w\<in>set ws. \<exists>s. w = Text s"
  shows "opening_fences ws = 0" "closing_fences ws = 0" "emitted_lines ws = []"
  using assms
  by (induction ws) (auto simp: opening_fences_def closing_fences_def is_fence_open_def is_fence_close_def)

lemma header_text: "\<forall>w\<in>set (header fmt). \<exists>s. w = Text s"
  by (auto simp: header_def)

lemma summary_text: "\<forall>w\<in>set (summary fmt sigs). \<exists>s. w = Text s"
  by (auto simp: summary_def)

lemma trailers_text: "\<forall>w\<in>set (trailers fmt sigs). \<exists>s. w = Text s"
  by (auto simp: trailers_def)

lemma format_unencoded_ok:
  "\<exists>out. format_unencoded fmt tokens = Some (Inr out) \<and>
     opening_fences out = closing_fences out \<and> lines_ok fmt out"
proof -
  obtain sigs scans where sg: "find_function_signatures fmt tokens = Some (Inr (sigs, scans))"
    "\<forall>s\<in>set sigs. start_idx s < end_idx s"
    using find_function_signatures_ok by blast
  define fence where "fence = repeat (fence_char fmt) (fence_count fmt)"
  define op0 where "op0 = (if lang fmt \<noteq> [] then FenceOpen (fence @ lang fmt @ [NL]) else FenceOpen (fence @ [NL]))"
  define out0 where "out0 = header fmt @ summary fmt sigs @ [op0]"
  obtain cl ln ws where lp:
    "render_loop fmt tokens sigs fence 0 [] (linenostart fmt) out0 = Some (Inr (cl, ln, out0 @ ws))"
    "opening_fences ws = closing_fences ws" "lines_ok fmt ws"
    using render_loop_ok[OF sg(2)] by blast
  obtain ws' where fl: "(if cl \<noteq> [] then write_line fmt cl ln (Some (tokens, int (length tokens) - 1)) else Inr []) = Inr ws'"
    "opening_fences ws' = 0" "closing_fences ws' = 0" "lines_ok fmt ws'"
    using write_line_good[of fmt cl ln "Some (tokens, int (length tokens) - 1)"] by (cases "cl = []") auto
  have "format_unencoded fmt tokens =
          Some (Inr ((out0 @ ws) @ ws' @ [FenceClose (fence @ [NL])] @ trailers fmt sigs))"
    using sg(1) lp(1) fl(1)
    by (simp add: format_unencoded_def Let_def fence_def[symmetric] op0_def[symmetric] out0_def[symmetric])
  moreover have "opening_fences ((out0 @ ws) @ ws' @ [FenceClose (fence @ [NL])] @ trailers fmt sigs) =
                 closing_fences ((out0 @ ws) @ ws' @ [FenceClose (fence @ [NL])] @ trailers fmt sigs)"
    using lp(2) fl(2,3) text_chunks(1,2)[OF header_text] text_chunks(1,2)[OF summary_text]
      text_chunks(1,2)[OF trailers_text]
    by (simp add: out0_def op0_def)
       (simp add: opening_fences_def closing_fences_def is_fence_open_def is_fence_close_def)
  moreover have "lines_ok fmt ((out0 @ ws) @ ws' @ [FenceClose (fence @ [NL])] @ trailers fmt sigs)"
    using lp(3) fl(4) text_chunks(3)[OF header_text] text_chunks(3)[OF summary_text]
      text_chunks(3)[OF trailers_text]
    by (simp add: out0_def op0_def) (simp add: lines_ok_def)
  ultimately show ?thesis by blast
qed

subsection \<open>The renderer where no signature is skipped\<close>

lemma consecutive_append:
  "consecutive n (xs @ ys) \<longleftrightarrow> consecutive n xs \<and> consecutive (n + int (length xs)) ys"
  by (induction xs arbitrary: n) (auto simp: algebra_simps)

lemma line_numbers_append [simp]: "line_numbers (xs @ ys) = line_numbers xs @ line_numbers ys"
  by (simp add: line_numbers_def)

lemma line_contents_append [simp]: "line_contents (xs @ ys) = line_contents xs @ line_contents ys"
  by (simp add: line_contents_def)

lemma lines_text_append [simp]: "lines_text (xs @ ys) = lines_text xs @ lines_text ys"
  by (simp add: lines_text_def)

lemma lines_Nil [simp]: "line_numbers [] = []" "line_contents [] = []" "lines_text [] = []"
  by (simp_all add: line_numbers_def line_contents_def lines_text_def)

lemma split_from_text:
  "split_from sep cur s = first # rest \<Longrightarrow> cur @ s = first @ concat (map (\<lambda>p. sep # p) rest)"
proof (induction s arbitrary: cur first rest)
  case Nil
  then show ?case by simp
next
  case (Cons c cs)
  show ?case
  proof (cases "c = sep")
    case True
    with Cons.prems have f: "first = cur" "rest = split_from sep [] cs"
      by simp_all
    obtain f2 r2 where r: "split_from sep [] cs = f2 # r2"
      using split_from_nonempty[of sep "[]" cs] by (cases "split_from sep [] cs") auto
    from Cons.IH[OF r] have "cs = f2 @ concat (map (\<lambda>p. sep # p) r2)"
      by simp
    with f r True show ?thesis by simp
  next
    case False
    with Cons.prems have "split_from sep (cur @ [c]) cs = first # rest"
      by simp
    from Cons.IH[OF this] show ?thesis by simp
  qed
qed

lemma split_from_length: "length (split_from sep cur s) = Suc (length (filter (\<lambda>c. c = sep) s))"
  by (induction s arbitrary: cur) auto

lemma lines_of_rest:
  "rest \<noteq> [] \<Longrightarrow>
     concat (map (\<lambda>p. sep # p) rest) = sep # concat (map (\<lambda>p. p @ [sep]) (butlast rest)) @ last rest"
  by (induction rest) auto

lemma count_nl_zero: "count_nl v = 0 \<longleftrightarrow> \<not> has_nl v"
  by (auto simp: has_nl_def count_nl_def filter_empty_conv)

lemma styled_plain: "\<not> inline_styles fmt \<Longrightarrow> styled fmt tt part = part"
  by (simp add: styled_def)

lemma write_line_lines:
  "\<exists>ws. write_line fmt parts ln ctx = Inr ws \<and> line_numbers ws = [ln] \<and> line_contents ws = [concat parts]"
  using write_line_ok[of fmt parts ln ctx] by (auto simp: line_numbers_def line_contents_def)

lemma emit_middle_lines:
  "\<exists>ws. emit_middle fmt tokens ti tt parts ln out = Inr (ln + int (length parts), out @ ws) \<and>
     consecutive ln (line_numbers ws) \<and> length (line_numbers ws) = length parts \<and>
     line_contents ws = map (\<lambda>p. if p \<noteq> [] then styled fmt tt p else []) parts"
proof (induction parts arbitrary: ln out)
  case Nil
  show ?case by (simp add: line_numbers_def line_contents_def)
next
  case (Cons part parts)
  obtain ws where ws: "write_line fmt (if part \<noteq> [] then [styled fmt tt part] else []) ln
      (Some (tokens, int ti)) = Inr ws" "line_numbers ws = [ln]"
      "line_contents ws = [concat (if part \<noteq> [] then [styled fmt tt part] else [])]"
    using write_line_lines by blast
  obtain ws' where r:
    "emit_middle fmt tokens ti tt parts (ln + 1) (out @ ws) = Inr (ln + 1 + int (length parts), (out @ ws) @ ws')"
    "consecutive (ln + 1) (line_numbers ws')" "length (line_numbers ws') = length parts"
    "line_contents ws' = map (\<lambda>p. if p \<noteq> [] then styled fmt tt p else []) parts"
    using Cons.IH by blast
  have "emit_middle fmt tokens ti tt (part # parts) ln out =
          Inr (ln + int (length (part # parts)), out @ (ws @ ws'))"
    using ws(1) r(1) by (simp add: algebra_simps)
  moreover have "consecutive ln (line_numbers (ws @ ws'))"
    "length (line_numbers (ws @ ws')) = length (part # parts)"
    "line_contents (ws @ ws') = map (\<lambda>p. if p \<noteq> [] then styled fmt tt p else []) (part # parts)"
    using ws(2,3) r(2,3,4) by simp_all
  ultimately show ?case by blast
qed

lemma emit_token_lines:
  "\<exists>cl ws. emit_token fmt tokens ti tk cl0 ln = Inr (cl, ln + int (count_nl (snd tk)), ws) \<and>
     consecutive ln (line_numbers ws) \<and> length (line_numbers ws) = count_nl (snd tk) \<and>
     (\<not> inline_styles fmt \<longrightarrow> lines_text ws @ concat cl = concat cl0 @ snd tk)"
proof -
  obtain tt v where tk: "tk = (tt, v)"
    by (cases tk)
  show ?thesis
  proof (cases "has_nl v")
    case False
    then have "count_nl v = 0"
      by (simp add: count_nl_zero)
    with False show ?thesis
      by (auto simp: emit_token_def tk line_numbers_def lines_text_def line_contents_def styled_plain)
  next
    case True
    obtain first rest where sp: "split v NL = first # rest"
      using split_nonempty[of v NL] by (cases "split v NL") auto
    have len: "length rest = count_nl v"
      using split_from_length[of NL "[]" v] sp by (simp add: split_def count_nl_def)
    with True have rest: "rest \<noteq> []"
      using count_nl_zero[of v] by auto
    have v: "v = first @ NL # concat (map (\<lambda>p. p @ [NL]) (butlast rest)) @ last rest"
      using split_from_text[of NL "[]" v first rest] sp lines_of_rest[OF rest, of NL]
      by (simp add: split_def)
    define cl1 where "cl1 = (if first \<noteq> [] then cl0 @ [styled fmt tt first] else cl0)"
    define cl2 where "cl2 = (if rest \<noteq> [] \<and> last rest \<noteq> [] then [styled fmt tt (last rest)] else [])"
    have step: "emit_token fmt tokens ti tk cl0 ln =
        (case write_line fmt cl1 ln (Some (tokens, int ti)) of
           Inl e \<Rightarrow> Inl e
         | Inr ws \<Rightarrow>
             (case emit_middle fmt tokens ti tt (butlast rest) (ln + 1) ws of
                Inl e \<Rightarrow> Inl e
              | Inr (line_number, out) \<Rightarrow> Inr (cl2, line_number, out)))"
      unfolding emit_token_def tk cl1_def cl2_def Let_def
      by (simp add: True sp)
    obtain ws where ws: "write_line fmt cl1 ln (Some (tokens, int ti)) = Inr ws"
      "line_numbers ws = [ln]" "line_contents ws = [concat cl1]"
      using write_line_lines by blast
    obtain ws' where r:
      "emit_middle fmt tokens ti tt (butlast rest) (ln + 1) ws = Inr (ln + 1 + int (length (butlast rest)), ws @ ws')"
      "consecutive (ln + 1) (line_numbers ws')" "length (line_numbers ws') = length (butlast rest)"
      "line_contents ws' = map (\<lambda>p. if p \<noteq> [] then styled fmt tt p else []) (butlast rest)"
      using emit_middle_lines by blast
    have pos: "0 < count_nl v"
      using len rest by (cases rest) auto
    have n: "ln + 1 + int (length (butlast rest)) = ln + int (count_nl v)"
      using len pos by simp
    have r1: "emit_middle fmt tokens ti tt (butlast rest) (ln + 1) ws = Inr (ln + int (count_nl v), ws @ ws')"
      using r(1) unfolding n .
    have "emit_token fmt tokens ti tk cl0 ln = Inr (cl2, ln + int (count_nl v), ws @ ws')"
      by (simp add: step ws(1) r1)
    moreover have "consecutive ln (line_numbers (ws @ ws'))"
      using ws(2) r(2) by simp
    moreover have "length (line_numbers (ws @ ws')) = count_nl v"
      using ws(2) r(3) len pos by simp
    moreover have "lines_text (ws @ ws') @ concat cl2 = concat cl0 @ v" if "\<not> inline_styles fmt"
    proof -
      have "map (\<lambda>p. if p \<noteq> [] then styled fmt tt p else []) (butlast rest) = butlast rest"
        using that by (simp add: styled_plain map_idI)
      then have "lines_text ws' = concat (map (\<lambda>p. p @ [NL]) (butlast rest))"
        using r(4) by (simp add: lines_text_def)
      moreover have "lines_text ws = concat cl0 @ first @ [NL]"
        using ws(3) that by (simp add: lines_text_def cl1_def styled_plain)
      moreover have "concat cl2 = last rest"
        using that rest by (simp add: cl2_def styled_plain)
      ultimately show ?thesis
        using v by simp
    qed
    ultimately show ?thesis
      unfolding tk snd_conv by blast
  qed
qed

lemma count_nl_append [simp]: "count_nl (a @ b) = count_nl a + count_nl b"
  by (simp add: count_nl_def)

lemma render_step_plain:
  assumes "function_style fmt = ''emphasis'' \<or> sigs = []"
  shows "render_step fmt tokens sigs fence ti tk cl0 ln =
           (case emit_token fmt tokens ti tk cl0 ln of
              Inl e \<Rightarrow> Inl e
            | Inr (cl, ln', ws) \<Rightarrow> Inr (ti + 1, cl, ln', ws))"
  using assms by (auto simp: render_step_def Let_def split: option.splits)

lemma render_loop_plain:
  assumes "function_style fmt = ''emphasis'' \<or> sigs = []"
  shows "\<exists>cl ws. render_loop fmt tokens sigs fence ti cl0 ln out =
             Some (Inr (cl, ln + int (length (line_numbers ws)), out @ ws)) \<and>
           consecutive ln (line_numbers ws) \<and>
           length (line_numbers ws) = count_nl (source_text (drop ti tokens)) \<and>
           (\<not> inline_styles fmt \<longrightarrow> lines_text ws @ concat cl = concat cl0 @ source_text (drop ti tokens))"
proof (induction "length tokens - ti" arbitrary: ti cl0 ln out rule: less_induct)
  case less
  show ?case
  proof (cases "ti < length tokens")
    case False
    then have "render_loop fmt tokens sigs fence ti cl0 ln out = Some (Inr (cl0, ln, out))"
      by (subst render_loop.simps) simp
    with False show ?thesis
      by (intro exI[of _ cl0] exI[of _ "[]"])
         (simp add: line_numbers_def lines_text_def line_contents_def source_text_def count_nl_def)
  next
    case True
    define tk where "tk = tokens ! ti"
    obtain cl ws where e:
      "emit_token fmt tokens ti tk cl0 ln = Inr (cl, ln + int (count_nl (snd tk)), ws)"
      "consecutive ln (line_numbers ws)" "length (line_numbers ws) = count_nl (snd tk)"
      "\<not> inline_styles fmt \<longrightarrow> lines_text ws @ concat cl = concat cl0 @ snd tk"
      using emit_token_lines by blast
    have eq: "render_loop fmt tokens sigs fence ti cl0 ln out =
                render_loop fmt tokens sigs fence (ti + 1) cl (ln + int (count_nl (snd tk))) (out @ ws)"
      using True e(1)
      by (subst render_loop.simps) (simp add: tok_at_def render_step_plain[OF assms] tk_def)
    have "length tokens - (ti + 1) < length tokens - ti"
      using True by simp
    from less.hyps[OF this, of cl "ln + int (count_nl (snd tk))" "out @ ws"] obtain cl2 ws2 where r:
      "render_loop fmt tokens sigs fence (ti + 1) cl (ln + int (count_nl (snd tk))) (out @ ws) =
         Some (Inr (cl2, ln + int (count_nl (snd tk)) + int (length (line_numbers ws2)), (out @ ws) @ ws2))"
      "consecutive (ln + int (count_nl (snd tk))) (line_numbers ws2)"
      "length (line_numbers ws2) = count_nl (source_text (drop (ti + 1) tokens))"
      "\<not> inline_styles fmt \<longrightarrow> lines_text ws2 @ concat cl2 = concat cl @ source_text (drop (ti + 1) tokens)"
      by blast
    have "drop ti tokens = tk # drop (ti + 1) tokens"
      using True by (simp add: Cons_nth_drop_Suc tk_def)
    then have d: "source_text (drop ti tokens) = snd tk @ source_text (drop (ti + 1) tokens)"
      by (simp add: source_text_def)
    have "render_loop fmt tokens sigs fence ti cl0 ln out =
            Some (Inr (cl2, ln + int (length (line_numbers (ws @ ws2))), out @ (ws @ ws2)))"
      using eq r(1) e(3) by simp
    moreover have "consecutive ln (line_numbers (ws @ ws2))"
      using e(2,3) r(2) by (simp add: consecutive_append)
    moreover have "length (line_numbers (ws @ ws2)) = count_nl (source_text (drop ti tokens))"
      using e(3) r(3) d by simp
    moreover have "lines_text (ws @ ws2) @ concat cl2 = concat cl0 @ source_text (drop ti tokens)"
      if "\<not> inline_styles fmt"
    proof -
      have "lines_text (ws @ ws2) @ concat cl2 = lines_text ws @ (lines_text ws2 @ concat cl2)"
        by simp
      also have "\<dots> = lines_text ws @ concat cl @ source_text (drop (ti + 1) tokens)"
        using r(4) that by simp
      also have "\<dots> = concat cl0 @ snd tk @ source_text (drop (ti + 1) tokens)"
        using e(4) that by (metis append_assoc)
      finally show ?thesis
        using d by simp
    qed
    ultimately show ?thesis by blast
  qed
qed

lemma text_chunks_lines:
  assumes "\<forall>w\<in>set ws. \<exists>s. w = Text s"
  shows "line_numbers ws = []" "lines_text ws = []"
  using text_chunks(3)[OF assms] by (simp_all add: line_numbers_def lines_text_def line_contents_def)

text \<open>
  Under the emphasis style, or with function highlighting off, the main loop never jumps.
  Then the lines of code are numbered from \<open>linenostart\<close> on without a gap, there is
  one line for each line break of the source text and one more when the text does not
  end in a line break, and, without inline styles, the lines with their line breaks are
  the source text, with a final line break added where it has none.
\<close>

lemma plain_rendering_faithful:
  assumes "function_style fmt = ''emphasis'' \<or> \<not> highlight_functions fmt"
  shows "\<exists>out. format_unencoded fmt tokens = Some (Inr out) \<and>
           consecutive (linenostart fmt) (line_numbers out) \<and>
           (length (line_numbers out) = count_nl (source_text tokens) \<or>
            length (line_numbers out) = count_nl (source_text tokens) + 1) \<and>
           (\<not> inline_styles fmt \<longrightarrow>
              lines_text out = source_text tokens \<or> lines_text out = source_text tokens @ [NL])"
proof -
  obtain sigs scans where sg: "find_function_signatures fmt tokens = Some (Inr (sigs, scans))"
    using find_function_signatures_ok by blast
  have plain: "function_style fmt = ''emphasis'' \<or> sigs = []"
    using assms sg by (auto simp: find_function_signatures_def split: if_splits)
  define fence where "fence = repeat (fence_char fmt) (fence_count fmt)"
  define op0 where "op0 = (if lang fmt \<noteq> [] then FenceOpen (fence @ lang fmt @ [NL]) else FenceOpen (fence @ [NL]))"
  define out0 where "out0 = header fmt @ summary fmt sigs @ [op0]"
  have out0: "line_numbers out0 = []" "lines_text out0 = []"
    using text_chunks_lines[OF header_text, of fmt] text_chunks_lines[OF summary_text, of fmt sigs]
    by (simp_all add: out0_def op0_def)
       (simp_all add: line_numbers_def lines_text_def line_contents_def)
  obtain cl ws where lp:
    "render_loop fmt tokens sigs fence 0 [] (linenostart fmt) out0 =
       Some (Inr (cl, linenostart fmt + int (length (line_numbers ws)), out0 @ ws))"
    "consecutive (linenostart fmt) (line_numbers ws)"
    "length (line_numbers ws) = count_nl (source_text (drop 0 tokens))"
    "\<not> inline_styles fmt \<longrightarrow> lines_text ws @ concat cl = concat [] @ source_text (drop 0 tokens)"
    using render_loop_plain[OF plain] by blast
  define ln where "ln = linenostart fmt + int (length (line_numbers ws))"
  obtain ws' where fl:
    "(if cl \<noteq> [] then write_line fmt cl ln (Some (tokens, int (length tokens) - 1)) else Inr []) = Inr ws'"
    "cl \<noteq> [] \<longrightarrow> line_numbers ws' = [ln] \<and> line_contents ws' = [concat cl]"
    "cl = [] \<longrightarrow> ws' = []"
    using write_line_lines[of fmt cl ln "Some (tokens, int (length tokens) - 1)"] by (cases "cl = []") auto
  define tail where "tail = [FenceClose (fence @ [NL])] @ trailers fmt sigs"
  have tail: "line_numbers tail = []" "lines_text tail = []"
    using text_chunks_lines[OF trailers_text, of fmt sigs]
    by (simp_all add: tail_def)
       (simp_all add: line_numbers_def lines_text_def line_contents_def)
  have res: "format_unencoded fmt tokens = Some (Inr ((out0 @ ws) @ ws' @ tail))"
    using sg lp(1) fl(1)
    by (simp add: format_unencoded_def Let_def fence_def[symmetric] op0_def[symmetric]
        out0_def[symmetric] ln_def[symmetric] tail_def)
  have nums: "line_numbers ((out0 @ ws) @ ws' @ tail) = line_numbers ws @ line_numbers ws'"
    using out0(1) tail(1) by simp
  have ltx: "lines_text ((out0 @ ws) @ ws' @ tail) = lines_text ws @ lines_text ws'"
    using out0(2) tail(2) by simp
  have "consecutive (linenostart fmt) (line_numbers ((out0 @ ws) @ ws' @ tail))"
    unfolding nums using lp(2) fl(2,3) by (cases "cl = []") (simp_all add: consecutive_append ln_def)
  moreover have "length (line_numbers ((out0 @ ws) @ ws' @ tail)) = count_nl (source_text tokens) \<or>
            length (line_numbers ((out0 @ ws) @ ws' @ tail)) = count_nl (source_text tokens) + 1"
    unfolding nums using lp(3) fl(2,3) by (cases "cl = []") simp_all
  moreover have "lines_text ((out0 @ ws) @ ws' @ tail) = source_text tokens \<or>
      lines_text ((out0 @ ws) @ ws' @ tail) = source_text tokens @ [NL]" if "\<not> inline_styles fmt"
  proof (cases "cl = []")
    case True
    with lp(4) fl(3) that show ?thesis
      unfolding ltx by simp
  next
    case False
    with fl(2) have "lines_text ws' = concat cl @ [NL]"
      by (simp add: lines_text_def)
    with lp(4) that show ?thesis
      unfolding ltx by simp
  qed
  ultimately show ?thesis
    using res by blast
qed

subsection \<open>The matcher of regular expressions\<close>

lemma rx_match_sound: "t \<in> set (rx_match r s) \<Longrightarrow> \<exists>u. s = u @ t \<and> matches r u"
proof (induction r s arbitrary: t rule: rx_match.induct)
  case (1 s)
  then show ?case by (auto intro: m_eps)
next
  case (2 P s)
  then show ?case
    by (cases s) (auto split: if_splits intro: m_atom)
next
  case (3 a b s)
  have "set (rx_match (Cat a b) s) = (\<Union>t'\<in>set (rx_match a s). set (rx_match b t'))"
    by (subst rx_match.simps) (auto simp del: rx_match.simps)
  with "3.prems" obtain t' where t': "t' \<in> set (rx_match a s)" "t \<in> set (rx_match b t')"
    by (auto simp del: rx_match.simps)
  from "3.IH"(1)[OF t'(1)] obtain u1 where u1: "s = u1 @ t'" "matches a u1"
    by blast
  from "3.IH"(2)[OF t'(1) t'(2)] obtain u2 where u2: "t' = u2 @ t" "matches b u2"
    by blast
  from u1 u2 have "s = (u1 @ u2) @ t" "matches (Cat a b) (u1 @ u2)"
    by (auto intro: m_cat)
  then show ?case by blast
next
  case (4 a b s)
  have "set (rx_match (Alt a b) s) = set (rx_match a s) \<union> set (rx_match b s)"
    by (subst rx_match.simps) (simp del: rx_match.simps)
  with "4.prems" have "t \<in> set (rx_match a s) \<or> t \<in> set (rx_match b s)"
    by (simp del: rx_match.simps)
  then show ?case
  proof
    assume "t \<in> set (rx_match a s)"
    from "4.IH"(1)[OF this] show ?thesis
      by (blast intro: m_alt1)
  next
    assume "t \<in> set (rx_match b s)"
    from "4.IH"(2)[OF this] show ?thesis
      by (blast intro: m_alt2)
  qed
next
  case (5 a s)
  have unf: "set (rx_match (Star a) s) =
      insert s (\<Union>t'\<in>{t' \<in> set (rx_match a s). length t' < length s}. set (rx_match (Star a) t'))"
    by (subst rx_match.simps) (auto simp del: rx_match.simps)
  show ?case
  proof (cases "t = s")
    case True
    then show ?thesis by (auto intro: m_star0)
  next
    case False
    with "5.prems" unf obtain t' where t': "t' \<in> set (rx_match a s)" "length t' < length s"
      "t \<in> set (rx_match (Star a) t')"
      by (auto simp del: rx_match.simps)
    from "5.IH"(1)[OF t'(1)] obtain u1 where u1: "s = u1 @ t'" "matches a u1"
      by blast
    from t'(1,2) have "t' \<in> set (filter (\<lambda>t. length t < length s) (rx_match a s))"
      by simp
    from "5.IH"(2)[OF this t'(3)] obtain u2 where u2: "t' = u2 @ t" "matches (Star a) u2"
      by blast
    from u1 u2 have "s = (u1 @ u2) @ t" "matches (Star a) (u1 @ u2)"
      by (auto intro: m_star)
    then show ?thesis by blast
  qed
qed

lemma rx_match_complete: "matches r u \<Longrightarrow> t \<in> set (rx_match r (u @ t))"
proof (induction r u arbitrary: t rule: matches.induct)
  case m_eps
  show ?case by simp
next
  case (m_atom P c)
  then show ?case by simp
next
  case (m_cat a u b v)
  have "v @ t \<in> set (rx_match a (u @ v @ t))"
    using m_cat.IH(1) by (simp del: rx_match.simps)
  moreover have "t \<in> set (rx_match b (v @ t))"
    using m_cat.IH(2) by (simp del: rx_match.simps)
  ultimately have "t \<in> set (rx_match (Cat a b) (u @ v @ t))"
    by (subst rx_match.simps) (auto simp del: rx_match.simps)
  then show ?case by (simp del: rx_match.simps)
next
  case (m_alt1 a u b)
  then show ?case
    by (subst rx_match.simps) (simp del: rx_match.simps)
next
  case (m_alt2 b u a)
  then show ?case
    by (subst rx_match.simps) (simp del: rx_match.simps)
next
  case (m_star0 a)
  show ?case
    by (subst rx_match.simps) (simp del: rx_match.simps)
next
  case (m_star a u v)
  show ?case
  proof (cases "u = []")
    case True
    with m_star.IH(2) show ?thesis by (simp del: rx_match.simps)
  next
    case False
    have "v @ t \<in> set (rx_match a (u @ v @ t))"
      using m_star.IH(1) by (simp del: rx_match.simps)
    moreover have "length (v @ t) < length (u @ v @ t)"
      using False by simp
    moreover have "t \<in> set (rx_match (Star a) (v @ t))"
      using m_star.IH(2) by (simp del: rx_match.simps)
    ultimately have "t \<in> set (rx_match (Star a) (u @ v @ t))"
      by (subst rx_match.simps) (auto simp del: rx_match.simps)
    then show ?thesis by (simp del: rx_match.simps)
  qed
qed

lemma rx_match_matches: "t \<in> set (rx_match r s) \<longleftrightarrow> (\<exists>u. s = u @ t \<and> matches r u)"
  using rx_match_sound rx_match_complete by blast

lemma re_match_to_end_matches:
  "re_match_to_end r s \<longleftrightarrow> matches r s \<or> (\<exists>u. s = u @ [NL] \<and> matches r u)"
  by (auto simp: re_match_to_end_def list_ex_iff rx_match_matches simp del: rx_match.simps)

section \<open>The claims\<close>

subsection \<open>The scanner\<close>



text \<open>
  C9. Scanner progress: whenever the scanner reports success, the \<open>end_idx\<close> it returns
  is greater than the start index; and the pre-pass ends, for every token stream, with a
  list of records.
\<close>

theorem scanner_progress_prepass_ends:
  "(\<forall>r. is_function_definition fmt tokens start = Inr r \<and> fst r \<longrightarrow> start < snd (snd (snd r))) \<and>
   (\<exists>sigs scans. find_function_signatures fmt tokens = Some (Inr (sigs, scans)))"
  using scan_progress[of fmt tokens start] find_function_signatures_ok[of fmt tokens]
  by blast

theorem scanner_progress_prepass_ends_witness:
  "is_function_definition default_options stream_def_fx 0 = Inr (True, Some ''f'', Some ''x'', 6) \<and>
   fst (True, Some ''f'', Some ''x'', 6 :: nat) \<and> (0 :: nat) < 6 \<and>
   signature_ranges default_options stream_def_fx = Some ([(0, 6)], [0, 6, 7])"
proof -
  have e: "is_function_definition default_options stream_def_fx 0 = Inr (True, Some ''f'', Some ''x'', 6)"
    by code_simp
  have s: "signature_ranges default_options stream_def_fx = Some ([(0, 6)], [0, 6, 7])"
    by code_simp
  from scanner_progress_prepass_ends[of default_options stream_def_fx 0] e s show ?thesis
    by simp
qed




subsection \<open>The pre-pass\<close>

text \<open>
  C2. Non-overlap and ordering: the records of one pre-pass have pairwise disjoint
  half-open ranges and ascending start indices, each record ends at or before the start
  of the next, and every scan begun after the scan that found a record begins at or
  after the end of that record.
\<close>

theorem signature_records_disjoint_ascending:
  "\<exists>sigs scans. find_function_signatures fmt tokens = Some (Inr (sigs, scans)) \<and>
     sorted_wrt (\<lambda>a b. start_idx a < start_idx b \<and> end_idx a \<le> start_idx b \<and>
        {start_idx a..<end_idx a} \<inter> {start_idx b..<end_idx b} = {}) sigs \<and>
     (\<forall>s\<in>set sigs. \<forall>p\<in>set scans. start_idx s < p \<longrightarrow> end_idx s \<le> p)"
proof -
  obtain sigs scans where r: "find_function_signatures fmt tokens = Some (Inr (sigs, scans))"
    "sorted_wrt (\<lambda>a b. end_idx a \<le> start_idx b) sigs"
    "\<forall>s\<in>set sigs. start_idx s < end_idx s"
    "\<forall>s\<in>set sigs. \<forall>p\<in>set scans. start_idx s < p \<longrightarrow> end_idx s \<le> p"
    using find_function_signatures_ok by blast
  have "sorted_wrt (\<lambda>a b. start_idx a < start_idx b \<and> end_idx a \<le> start_idx b \<and>
        {start_idx a..<end_idx a} \<inter> {start_idx b..<end_idx b} = {}) sigs"
  proof (rule sorted_wrt_mono_rel[OF _ r(2)])
    fix a b assume "a \<in> set sigs" "b \<in> set sigs" "end_idx a \<le> start_idx b"
    with r(3) show "start_idx a < start_idx b \<and> end_idx a \<le> start_idx b \<and>
        {start_idx a..<end_idx a} \<inter> {start_idx b..<end_idx b} = {}"
      by (auto simp: less_le_trans)
  qed
  with r(1,4) show ?thesis by blast
qed

theorem signature_records_disjoint_ascending_witness:
  "signature_ranges default_options stream_two_defs = Some ([(0, 5), (6, 12)], [0, 5, 6, 12, 13]) \<and>
   (0 :: nat) < 6 \<and> (5 :: nat) \<le> 6"
proof -
  have "signature_ranges default_options stream_two_defs = Some ([(0, 5), (6, 12)], [0, 5, 6, 12, 13])"
    by code_simp
  with signature_records_disjoint_ascending[of default_options stream_two_defs] show ?thesis
    by simp
qed

subsection \<open>The renderer\<close>

text \<open>
  C6. Fence integrity: when the function style is callout or heading and function
  highlighting is on, the rendering ends without an error and writes as many opening
  fences as closing fences.
\<close>

theorem fence_markers_balanced:
  assumes "highlight_functions fmt"
    and "function_style fmt = ''callout'' \<or> function_style fmt = ''heading''"
  shows "\<exists>out. format_unencoded fmt tokens = Some (Inr out) \<and>
           opening_fences out = closing_fences out"
  using format_unencoded_ok[of fmt tokens] by blast

theorem fence_markers_balanced_witness:
  "highlight_functions callout_options \<and> function_style callout_options = ''callout'' \<and>
   fence_counts callout_options stream_x_def = Some (2, 2)"
proof -
  have h: "highlight_functions callout_options" "function_style callout_options = ''callout''"
    by (simp_all add: callout_options_def default_options_def)
  have "fence_counts callout_options stream_x_def = Some (2, 2)"
    by code_simp
  with fence_markers_balanced[of callout_options stream_x_def] h show ?thesis
    by simp
qed




text \<open>
  C10. Empty-stream rendering: under options with no full document, no language tag and
  no highlighted lines, as the default options are, the rendering of the empty token
  stream is the opening fence line and then the closing fence line, and nothing else.
\<close>

theorem empty_stream_two_fence_lines:
  assumes "\<not> full fmt" and "lang fmt = []" and "hl_lines fmt = []"
  shows "format_unencoded fmt [] =
           Some (Inr [FenceOpen (repeat (fence_char fmt) (fence_count fmt) @ [NL]),
                      FenceClose (repeat (fence_char fmt) (fence_count fmt) @ [NL])])"
proof -
  have "find_loop fmt [] 0 [] [] = Some (Inr ([], []))"
    by (subst find_loop.simps) simp
  then have s: "find_function_signatures fmt [] = Some (Inr ([], []))"
    by (simp add: find_function_signatures_def)
  have l: "render_loop fmt [] [] fence 0 [] n out = Some (Inr ([], n, out))" for fence n out
    by (subst render_loop.simps) simp
  show ?thesis
    using assms by (simp add: format_unencoded_def s l Let_def header_def summary_def trailers_def)
qed

theorem empty_stream_two_fence_lines_witness:
  "\<not> full (init default_options) \<and> lang (init default_options) = [] \<and> hl_lines (init default_options) = [] \<and>
   format_unencoded (init default_options) [] = Some (Inr [FenceOpen (''```'' @ [NL]), FenceClose (''```'' @ [NL])]) \<and>
   rendered_text (init default_options) [] = Some (''```'' @ [NL] @ ''```'' @ [NL])"
proof -
  have h: "\<not> full (init default_options)" "lang (init default_options) = []" "hl_lines (init default_options) = []"
    by (simp_all add: init_def default_options_def)
  have r: "repeat (fence_char (init default_options)) (fence_count (init default_options)) = ''```''"
    by code_simp
  from empty_stream_two_fence_lines[OF h] r show ?thesis
    using h by (simp add: rendered_text_def written_def)
qed

text \<open>
  C1. Concatenation fidelity fails under the callout and heading styles: the main loop
  jumps from the start of a signature to its end and writes none of the tokens in
  between. The stream \<open>def f(x):\<close> is rendered, under the callout style, with the single
  line of code \<open>:\<close>; the text \<open>def\<close> is nowhere in the output. Under the emphasis style
  the whole line is written (and \<open>plain_rendering_faithful\<close> holds for every stream).
\<close>

theorem callout_drops_signature_text:
  "concat (map snd stream_def_fx) = ''def f(x):'' @ [NL] \<and>
   rendered_lines callout_options stream_def_fx = Some [(1, '':'', '''')] \<and>
   rendered_lines heading_options stream_def_fx = Some [(1, '':'', '''')] \<and>
   map_option (\<lambda>t. contains t ''def'') (rendered_text callout_options stream_def_fx) = Some False \<and>
   rendered_lines default_options stream_def_fx = Some [(1, ''def f(x):'', function_marker ''f'')]"
  by code_simp

text \<open>
  C3. Line-number accounting fails under the callout and heading styles: a line cut by
  the start of a signature is written without the line number advancing, and the line
  breaks inside the skipped signature are not counted. The stream of the two lines
  \<open>x\<close> and \<open>def f():\<close> is rendered, under the callout style, as two lines of code that
  both have the number 1; under the emphasis style they have the numbers 1 and 2 (and
  \<open>plain_rendering_faithful\<close> holds for every stream).
\<close>

theorem callout_repeats_line_number:
  "sum_list (map (count_nl \<circ> snd) stream_x_def) = 2 \<and>
   rendered_lines callout_options stream_x_def = Some [(1, ''x'', ''''), (1, '':'', '''')] \<and>
   rendered_lines heading_options stream_x_def = Some [(1, ''x'', ''''), (1, '':'', '''')] \<and>
   rendered_lines default_options stream_x_def = Some [(1, ''x'', ''''), (2, ''def f():'', '''')]"
  by code_simp

subsection \<open>The line classifier\<close>




end
